theory Spec2Isabelle
  imports Complex_Main "HOL-Library.Word"
begin

section \<open>JavaScript strings\<close>

text \<open>
  A JavaScript string is a sequence of UTF-16 code units; \<open>length\<close> counts code units.
  The literals of \<^verbatim>\<open>auth-validation.js\<close> are ASCII and are written with \<open>lit\<close>.
\<close>

type_synonym code_unit = "16 word"
type_synonym js_string = "code_unit list"

definition lit :: "string \<Rightarrow> js_string" where
  "lit s = map (\<lambda>c. of_nat (of_char c)) s"

text \<open>
  White space and line terminators of ECMAScript: what \<^verbatim>\<open>String.prototype.trim\<close> strips
  and what the class \<^verbatim>\<open>\s\<close> of a regular expression matches.
\<close>

definition is_space :: "code_unit \<Rightarrow> bool" where
  "is_space u \<longleftrightarrow>
     u = 0x09 \<or> u = 0x0A \<or> u = 0x0B \<or> u = 0x0C \<or> u = 0x0D \<or> u = 0x20 \<or> u = 0xA0 \<or>
     u = 0x1680 \<or> (0x2000 \<le> u \<and> u \<le> 0x200A) \<or> u = 0x2028 \<or> u = 0x2029 \<or>
     u = 0x202F \<or> u = 0x205F \<or> u = 0x3000 \<or> u = 0xFEFF"

definition trim :: "js_string \<Rightarrow> js_string" where
  "trim s = rev (dropWhile is_space (rev (dropWhile is_space s)))"

section \<open>The regular expression of the email watcher\<close>

text \<open>
  \<^verbatim>\<open>/^[^\s@]+@[^\s@]+\.[^\s@]+$/\<close> is a sequence of atoms between the two anchors: a
  literal code unit, or one or more code units of a class. \<open>regex_test\<close> is the
  backtracking match of \<^verbatim>\<open>RegExp.prototype.test\<close> for such a sequence: anchored at the
  start by \<^verbatim>\<open>^\<close>, it succeeds only when the atoms consume the whole input (\<^verbatim>\<open>$\<close>, no
  multiline flag); a \<^verbatim>\<open>+\<close> first takes as much as it can and gives back on failure.
\<close>

datatype atom = Char code_unit | Plus "code_unit \<Rightarrow> bool"

fun regex_test :: "atom list \<Rightarrow> js_string \<Rightarrow> bool" where
  "regex_test [] s = (s = [])"
| "regex_test (Char c # r) [] = False"
| "regex_test (Char c # r) (x # xs) = (x = c \<and> regex_test r xs)"
| "regex_test (Plus p # r) [] = False"
| "regex_test (Plus p # r) (x # xs) =
     (p x \<and> (regex_test (Plus p # r) xs \<or> regex_test r xs))"

definition not_space_at :: "code_unit \<Rightarrow> bool" where
  "not_space_at u \<longleftrightarrow> \<not> is_space u \<and> u \<noteq> 0x40"

definition emailRegex :: "atom list" where
  "emailRegex = [Plus not_space_at, Char 0x40, Plus not_space_at, Char 0x2E, Plus not_space_at]"

text \<open>
  The pattern in the words of the specification: one or more non-whitespace, non-@
  characters, "@", one or more of them, ".", one or more of them.
\<close>

definition email_pattern :: "js_string \<Rightarrow> bool" where
  "email_pattern s \<longleftrightarrow>
     (\<exists>a b c. s = a @ [0x40] @ b @ [0x2E] @ c \<and> a \<noteq> [] \<and> b \<noteq> [] \<and> c \<noteq> [] \<and>
        list_all not_space_at a \<and> list_all not_space_at b \<and> list_all not_space_at c)"

section \<open>Decoded JSON and truthiness\<close>

text \<open>
  The value \<^verbatim>\<open>response.json()\<close> resolves to. A number is an IEEE double: a finite one is
  a rational (both zeros are \<open>Finite 0\<close>), and \<^verbatim>\<open>JSON.parse\<close> yields an infinity on
  overflow. An object is the association list of its own properties.
\<close>

datatype js_number = Finite rat | PosInfinity | NegInfinity

datatype json =
    JNull
  | JBool bool
  | JNumber js_number
  | JString js_string
  | JArray "json list"
  | JObject "(js_string \<times> json) list"

datatype js_error = TypeError | SyntaxError | FetchError

text \<open>
  \<^verbatim>\<open>data.available\<close>: reading a property of \<^verbatim>\<open>null\<close> throws; an object yields its own
  property or \<^verbatim>\<open>undefined\<close> (\<open>None\<close>); booleans, numbers, strings and arrays have no such
  property on their prototypes.
\<close>

fun get_available :: "json \<Rightarrow> js_error + json option" where
  "get_available JNull = Inl TypeError"
| "get_available (JObject kvs) = Inr (map_of kvs (lit ''available''))"
| "get_available d = Inr None"

fun truthy :: "json option \<Rightarrow> bool" where
  "truthy None = False"
| "truthy (Some JNull) = False"
| "truthy (Some (JBool b)) = b"
| "truthy (Some (JNumber n)) = (n \<noteq> Finite 0)"
| "truthy (Some (JString s)) = (s \<noteq> [])"
| "truthy (Some (JArray xs)) = True"
| "truthy (Some (JObject kvs)) = True"

section \<open>The document\<close>

text \<open>
  The page is a tree. The elements the script looks up (inputs, the hidden token field,
  hint nodes) are leaves carrying the attributes the script reads and writes; everything
  that has element children is an anonymous container. The document is the list of the
  children of its root container. A reference to an element is its position: the child
  indices on the way down from the root. The script only ever appends a last child, so a
  position keeps denoting the same element.
\<close>

record attrs =
  el_id :: js_string
  el_name :: js_string
  className :: js_string
  textContent :: js_string
  color :: js_string
  el_value :: js_string

datatype element = Element attrs | Container "element list"

type_synonym ref = "nat list"

text \<open>The first match in document order, among the results for the children in turn.\<close>

fun bump :: "ref \<Rightarrow> ref" where
  "bump [] = []"
| "bump (k # r) = Suc k # r"

fun first_hit :: "ref option list \<Rightarrow> ref option" where
  "first_hit [] = None"
| "first_hit (Some r # hs) = Some (0 # r)"
| "first_hit (None # hs) = map_option bump (first_hit hs)"

fun query :: "(attrs \<Rightarrow> bool) \<Rightarrow> element \<Rightarrow> ref option" where
  "query P (Element a) = (if P a then Some [] else None)"
| "query P (Container es) = first_hit (map (query P) es)"

definition querySelector :: "(attrs \<Rightarrow> bool) \<Rightarrow> element list \<Rightarrow> ref option" where
  "querySelector P doc = first_hit (map (query P) doc)"

text \<open>\<^verbatim>\<open>document.getElementById\<close>: the empty string is no identifier.\<close>

definition getElementById :: "js_string \<Rightarrow> element list \<Rightarrow> ref option" where
  "getElementById i doc = (if i = [] then None else querySelector (\<lambda>a. el_id a = i) doc)"

fun count_el :: "(attrs \<Rightarrow> bool) \<Rightarrow> element \<Rightarrow> nat" where
  "count_el P (Element a) = (if P a then 1 else 0)"
| "count_el P (Container es) = sum_list (map (count_el P) es)"

definition count_id :: "js_string \<Rightarrow> element list \<Rightarrow> nat" where
  "count_id i doc = sum_list (map (count_el (\<lambda>a. el_id a = i)) doc)"

fun lookup :: "ref \<Rightarrow> element list \<Rightarrow> attrs option" where
  "lookup [] es = None"
| "lookup (k # r) es =
     (if k < length es
      then (case es ! k of
              Element a \<Rightarrow> (if r = [] then Some a else None)
            | Container cs \<Rightarrow> lookup r cs)
      else None)"

fun children :: "ref \<Rightarrow> element list \<Rightarrow> element list option" where
  "children [] es = Some es"
| "children (k # r) es =
     (if k < length es
      then (case es ! k of Element a \<Rightarrow> None | Container cs \<Rightarrow> children r cs)
      else None)"

fun modify :: "ref \<Rightarrow> (attrs \<Rightarrow> attrs) \<Rightarrow> element list \<Rightarrow> element list" where
  "modify [] f es = es"
| "modify (k # r) f es =
     (if k < length es
      then es[k := (case es ! k of
                      Element a \<Rightarrow> (if r = [] then Element (f a) else Element a)
                    | Container cs \<Rightarrow> Container (modify r f cs))]
      else es)"

fun appendChild :: "ref \<Rightarrow> element \<Rightarrow> element list \<Rightarrow> element list" where
  "appendChild [] n es = es @ [n]"
| "appendChild (k # r) n es =
     (if k < length es
      then es[k := (case es ! k of
                      Element a \<Rightarrow> Element a
                    | Container cs \<Rightarrow> Container (appendChild r n cs))]
      else es)"

text \<open>
  \<^verbatim>\<open>element.value\<close>. The script reads it only through references it got from a lookup,
  and those stay in the document (lemma \<open>invariant_reachable\<close>); the empty string for a
  position that holds no element is never read.
\<close>

definition value_at :: "ref \<Rightarrow> element list \<Rightarrow> js_string" where
  "value_at r doc = (case lookup r doc of Some a \<Rightarrow> el_value a | None \<Rightarrow> [])"

text \<open>
  \<^verbatim>\<open>createFeedbackElement(inputElement, id)\<close>: a new \<^verbatim>\<open>div\<close> with the identifier and the
  class \<^verbatim>\<open>form-text\<close>, appended to the parent of the input; the result is the new
  element and the document after the insertion. An input that has no parent in the
  document makes \<^verbatim>\<open>inputElement.parentNode.appendChild\<close> throw.
\<close>

definition new_div :: attrs where
  "new_div = \<lparr>el_id = [], el_name = [], className = [], textContent = [], color = [],
     el_value = []\<rparr>"

definition createFeedbackElement ::
  "ref \<Rightarrow> js_string \<Rightarrow> element list \<Rightarrow> js_error + ref \<times> element list" where
  "createFeedbackElement inputElement i doc =
     (let feedback = new_div\<lparr>el_id := i, className := lit ''form-text''\<rparr>;
          parentNode = butlast inputElement
      in case children parentNode doc of
           None \<Rightarrow> Inl TypeError
         | Some siblings \<Rightarrow>
             Inr (parentNode @ [length siblings], appendChild parentNode (Element feedback) doc))"

text \<open>\<^verbatim>\<open>document.getElementById(id) || createFeedbackElement(inputElement, id)\<close>\<close>

definition feedback_for ::
  "ref \<Rightarrow> js_string \<Rightarrow> element list \<Rightarrow> js_error + ref \<times> element list" where
  "feedback_for inputElement i doc =
     (case getElementById i doc of
        Some feedback \<Rightarrow> Inr (feedback, doc)
      | None \<Rightarrow> createFeedbackElement inputElement i doc)"

section \<open>The page: event loop, timers and requests\<close>

text \<open>
  The script runs on one event loop. Its state is the document, the variables of the
  \<^verbatim>\<open>DOMContentLoaded\<close> closure (the four looked-up inputs and \<^verbatim>\<open>usernameTimeout\<close>), and
  what the browser holds for it: a clock in milliseconds, the pending timers (each with
  the \<^verbatim>\<open>username\<close> its callback captured), the requests issued by \<^verbatim>\<open>fetch\<close> in order
  (one per call, each a \<^verbatim>\<open>POST\<close> to \<^verbatim>\<open>/auth/check-username\<close> with the token in the header
  \<^verbatim>\<open>X-CSRFToken\<close> and the username in the JSON body), which of them have settled, the
  entries of \<^verbatim>\<open>console.error\<close>, and the exceptions no handler caught. A timer runs as
  soon as the clock reaches its deadline.
\<close>

record timer =
  timer_id :: nat
  deadline :: nat
  captured :: js_string

record request =
  req_csrf :: js_string
  req_username :: js_string

record state =
  document :: "element list"
  usernameInput :: "ref option"
  emailInput :: "ref option"
  passwordInput :: "ref option"
  confirmPasswordInput :: "ref option"
  usernameTimeout :: "nat option"
  now :: nat
  next_timer :: nat
  timers :: "timer list"
  requests :: "request list"
  settled :: "nat list"
  console :: "js_error list"
  uncaught :: "js_error list"

text \<open>The body of the \<^verbatim>\<open>DOMContentLoaded\<close> listener: the lookups that decide which
  watchers attach.\<close>

definition DOMContentLoaded :: "element list \<Rightarrow> state" where
  "DOMContentLoaded doc =
     \<lparr>document = doc,
      usernameInput = getElementById (lit ''username'') doc,
      emailInput = getElementById (lit ''email'') doc,
      passwordInput = getElementById (lit ''password'') doc,
      confirmPasswordInput = getElementById (lit ''confirm_password'') doc,
      usernameTimeout = None,
      now = 0, next_timer = 1, timers = [], requests = [], settled = [],
      console = [], uncaught = []\<rparr>"

definition clearTimeout :: "nat option \<Rightarrow> state \<Rightarrow> state" where
  "clearTimeout h s =
     (case h of
        None \<Rightarrow> s
      | Some i \<Rightarrow> s\<lparr>timers := filter (\<lambda>t. timer_id t \<noteq> i) (timers s)\<rparr>)"

definition setTimeout :: "js_string \<Rightarrow> nat \<Rightarrow> state \<Rightarrow> nat \<times> state" where
  "setTimeout username delay s =
     (next_timer s,
      s\<lparr>timers := timers s @
           [\<lparr>timer_id = next_timer s, deadline = now s + delay, captured = username\<rparr>],
        next_timer := Suc (next_timer s)\<rparr>)"

text \<open>Lines 8 to 38: the \<^verbatim>\<open>input\<close> listener of the username field.\<close>

definition username_oninput :: "ref \<Rightarrow> state \<Rightarrow> state" where
  "username_oninput this s =
     (let s1 = clearTimeout (usernameTimeout s) s;
          username = trim (value_at this (document s1))
      in if length username < 3 then s1
         else (let (h, s2) = setTimeout username 500 s1
               in s2\<lparr>usernameTimeout := Some h\<rparr>))"

text \<open>
  Lines 14 to 22, the timer's callback up to the call of \<^verbatim>\<open>fetch\<close>: the headers are
  built first, so a page without a \<^verbatim>\<open>csrf_token\<close> field throws on \<^verbatim>\<open>.value\<close> of
  \<^verbatim>\<open>null\<close> before any request is made, outside the promise chain.
\<close>

definition timer_callback :: "timer \<Rightarrow> state \<Rightarrow> state" where
  "timer_callback t s =
     (case querySelector (\<lambda>a. el_name a = lit ''csrf_token'') (document s) of
        None \<Rightarrow> s\<lparr>uncaught := uncaught s @ [TypeError]\<rparr>
      | Some field \<Rightarrow>
          s\<lparr>requests := requests s @
               [\<lparr>req_csrf = value_at field (document s), req_username = captured t\<rparr>]\<rparr>)"

text \<open>
  Lines 23 to 36: how a request settles. \<^verbatim>\<open>fetch\<close> rejects, or \<^verbatim>\<open>response.json()\<close>
  rejects, or the body decodes to a value and the second \<^verbatim>\<open>then\<close> runs; whatever the
  chain throws reaches \<^verbatim>\<open>catch\<close>, which logs it.
\<close>

datatype outcome = Fetch_rejected | Body_not_json | Json json

definition catch_log :: "js_error \<Rightarrow> state \<Rightarrow> state" where
  "catch_log e s = s\<lparr>console := console s @ [e]\<rparr>"

fun settle :: "outcome \<Rightarrow> state \<Rightarrow> state" where
  "settle Fetch_rejected s = catch_log FetchError s"
| "settle Body_not_json s = catch_log SyntaxError s"
| "settle (Json data) s =
     (case usernameInput s of
        None \<Rightarrow> s
      | Some inputElement \<Rightarrow>
          (case feedback_for inputElement (lit ''username-feedback'') (document s) of
             Inl e \<Rightarrow> catch_log e s
           | Inr (feedback, doc) \<Rightarrow>
               (case get_available data of
                  Inl e \<Rightarrow> catch_log e (s\<lparr>document := doc\<rparr>)
                | Inr available \<Rightarrow>
                    if truthy available
                    then s\<lparr>document := modify feedback
                           (\<lambda>a. a\<lparr>textContent := lit ''Username is available'',
                                  color := lit ''#198754''\<rparr>) doc\<rparr>
                    else s\<lparr>document := modify feedback
                           (\<lambda>a. a\<lparr>textContent := lit ''Username is already taken'',
                                  color := lit ''#dc3545''\<rparr>) doc\<rparr>)))"

text \<open>
  Lines 44 to 56: the \<^verbatim>\<open>blur\<close> listener of the email field (\<open>this\<close> is
  \<^verbatim>\<open>emailInput\<close>, the element it is attached to). An exception of a listener is caught by
  nothing.
\<close>

definition email_onblur :: "ref \<Rightarrow> state \<Rightarrow> state" where
  "email_onblur this s =
     (let email = trim (value_at this (document s))
      in case feedback_for this (lit ''email-feedback'') (document s) of
           Inl e \<Rightarrow> s\<lparr>uncaught := uncaught s @ [e]\<rparr>
         | Inr (feedback, doc) \<Rightarrow>
             if \<not> regex_test emailRegex email
             then s\<lparr>document := modify feedback
                    (\<lambda>a. a\<lparr>textContent := lit ''Please enter a valid email address'',
                           color := lit ''#dc3545''\<rparr>) doc\<rparr>
             else s\<lparr>document := modify feedback (\<lambda>a. a\<lparr>textContent := []\<rparr>) doc\<rparr>)"

text \<open>
  Lines 64 to 75: the \<^verbatim>\<open>input\<close> listener of the confirmation field (\<open>this\<close> is
  \<^verbatim>\<open>confirmPasswordInput\<close>); it exists only when \<^verbatim>\<open>passwordInput\<close> was found too.
\<close>

definition confirm_oninput :: "ref \<Rightarrow> state \<Rightarrow> state" where
  "confirm_oninput this s =
     (case passwordInput s of
        None \<Rightarrow> s
      | Some password \<Rightarrow>
          (case feedback_for this (lit ''confirm-password-feedback'') (document s) of
             Inl e \<Rightarrow> s\<lparr>uncaught := uncaught s @ [e]\<rparr>
           | Inr (feedback, doc) \<Rightarrow>
               if value_at this doc \<noteq> value_at password doc
               then s\<lparr>document := modify feedback
                      (\<lambda>a. a\<lparr>textContent := lit ''Passwords do not match'',
                             color := lit ''#dc3545''\<rparr>) doc\<rparr>
               else s\<lparr>document := modify feedback
                      (\<lambda>a. a\<lparr>textContent := lit ''Passwords match'',
                             color := lit ''#198754''\<rparr>) doc\<rparr>))"

text \<open>
  What can happen on the page: the user sets the value of an element (an \<^verbatim>\<open>input\<close>
  event on it), an element loses focus, time passes, a request settles. An event on an
  element runs the listeners attached to that element, in the order they were added; an
  event whose target is not in the document, or the settling of a request that was never
  issued or has settled already, does not occur.
\<close>

datatype event = Input ref js_string | Blur ref | Elapse nat | Settle nat outcome

fun step :: "event \<Rightarrow> state \<Rightarrow> state" where
  "step (Input target v) s =
     (case lookup target (document s) of
        None \<Rightarrow> s
      | Some _ \<Rightarrow>
          (let s1 = s\<lparr>document := modify target (\<lambda>a. a\<lparr>el_value := v\<rparr>) (document s)\<rparr>;
               s2 = (if usernameInput s1 = Some target then username_oninput target s1 else s1)
           in if passwordInput s2 \<noteq> None \<and> confirmPasswordInput s2 = Some target
              then confirm_oninput target s2 else s2))"
| "step (Blur target) s =
     (if lookup target (document s) \<noteq> None \<and> emailInput s = Some target
      then email_onblur target s else s)"
| "step (Elapse d) s =
     (let t = now s + d;
          due = filter (\<lambda>x. deadline x \<le> t) (timers s)
      in fold timer_callback due
           (s\<lparr>now := t, timers := filter (\<lambda>x. \<not> deadline x \<le> t) (timers s)\<rparr>))"
| "step (Settle i out) s =
     (if i < length (requests s) \<and> i \<notin> set (settled s)
      then settle out (s\<lparr>settled := i # settled s\<rparr>) else s)"

definition run :: "event list \<Rightarrow> state \<Rightarrow> state" where
  "run evs s = fold step evs s"

text \<open>What a feedback element shows: the text and the colour of the element that
  \<^verbatim>\<open>getElementById\<close> finds under the identifier.\<close>

definition shown :: "js_string \<Rightarrow> element list \<Rightarrow> (js_string \<times> js_string) option" where
  "shown i doc =
     (case getElementById i doc of
        None \<Rightarrow> None
      | Some r \<Rightarrow> map_option (\<lambda>a. (textContent a, color a)) (lookup r doc))"

text \<open>A burst of typing into one field: before each further keystroke some time passes.\<close>

fun keystrokes :: "ref \<Rightarrow> (nat \<times> js_string) list \<Rightarrow> event list" where
  "keystrokes p [] = []"
| "keystrokes p ((d, v) # ks) = Elapse d # Input p v # keystrokes p ks"

section \<open>Invariants and sample data\<close>

text \<open>
  A looked-up input stays the element it was: \<open>attached i v doc\<close> says that the variable
  \<open>v\<close>, when it holds a reference, denotes an element of the document with identifier
  \<open>i\<close>. The invariant of the page states this for the four inputs, that at most one timer
  is pending and \<^verbatim>\<open>usernameTimeout\<close> is its handle, and that every captured or sent
  username has at least three code units.
\<close>

definition attached :: "js_string \<Rightarrow> ref option \<Rightarrow> element list \<Rightarrow> bool" where
  "attached i v doc =
     (case v of
        None \<Rightarrow> True
      | Some r \<Rightarrow> (case lookup r doc of None \<Rightarrow> False | Some a \<Rightarrow> el_id a = i))"

definition one_timer :: "state \<Rightarrow> bool" where
  "one_timer s =
     (case timers s of
        [] \<Rightarrow> True
      | t # ts \<Rightarrow> ts = [] \<and> usernameTimeout s = Some (timer_id t))"

definition invariant :: "state \<Rightarrow> bool" where
  "invariant s \<longleftrightarrow>
     attached (lit ''username'') (usernameInput s) (document s) \<and>
     attached (lit ''email'') (emailInput s) (document s) \<and>
     attached (lit ''password'') (passwordInput s) (document s) \<and>
     attached (lit ''confirm_password'') (confirmPasswordInput s) (document s) \<and>
     (usernameInput s = None \<longrightarrow> requests s = [] \<and> timers s = []) \<and>
     one_timer s \<and>
     list_all (\<lambda>t. 3 \<le> length (captured t)) (timers s) \<and>
     list_all (\<lambda>r. 3 \<le> length (req_username r)) (requests s)"

text \<open>A registration page with all five fields, used for concrete runs.\<close>

definition sample_page :: "element list" where
  "sample_page =
     [Container
        [Container [Element (new_div\<lparr>el_name := lit ''csrf_token'', el_value := lit ''tok''\<rparr>)],
         Container [Element (new_div\<lparr>el_id := lit ''username'', el_name := lit ''username''\<rparr>)],
         Container [Element (new_div\<lparr>el_id := lit ''email'', el_name := lit ''email''\<rparr>)],
         Container [Element (new_div\<lparr>el_id := lit ''password'', el_name := lit ''password''\<rparr>)],
         Container [Element (new_div\<lparr>el_id := lit ''confirm_password'',
                                         el_name := lit ''confirm_password''\<rparr>)]]]"

text \<open>The sample page after a username was typed and its check was sent.\<close>

definition one_request :: state where
  "one_request = run [Input [0, 1, 0] (lit ''alice''), Elapse 500] (DOMContentLoaded sample_page)"

text \<open>The sample page after something that is no address was typed into the email field.\<close>

definition typed_email :: state where
  "typed_email = run [Input [0, 2, 0] (lit '' not-an-email '')] (DOMContentLoaded sample_page)"

text \<open>The same after an address was typed.\<close>

definition typed_address :: state where
  "typed_address = run [Input [0, 2, 0] (lit ''user@example.com'')] (DOMContentLoaded sample_page)"

text \<open>The sample page after a password was typed.\<close>

definition typed_password :: state where
  "typed_password = run [Input [0, 3, 0] (lit ''Secret1'')] (DOMContentLoaded sample_page)"

text \<open>A login page: a username and a password, no email, no confirmation and no token field.\<close>

definition login_page :: "element list" where
  "login_page =
     [Container
        [Container [Element (new_div\<lparr>el_id := lit ''username'', el_name := lit ''username''\<rparr>)],
         Container [Element (new_div\<lparr>el_id := lit ''password'', el_name := lit ''password''\<rparr>)]]]"

definition login_loaded :: state where
  "login_loaded = run [] (DOMContentLoaded login_page)"

text \<open>
  Right after a keystroke on the username field, \<open>u\<close> being the trimmed value: whatever
  timer is pending was set just now for \<open>u\<close>, and one is pending when \<open>u\<close> is long enough.
\<close>

definition waiting :: "js_string \<Rightarrow> state \<Rightarrow> bool" where
  "waiting u s \<longleftrightarrow>
     invariant s \<and>
     list_all (\<lambda>t. deadline t = now s + 500 \<and> captured t = u) (timers s) \<and>
     (3 \<le> length u \<longrightarrow> timers s \<noteq> [])"

text \<open>The sample page as loaded, and after "alice" was typed into the username field.\<close>

definition loaded :: state where
  "loaded = run [] (DOMContentLoaded sample_page)"

definition typed_alice :: state where
  "typed_alice = run [Input [0, 1, 0] (lit ''alice'')] (DOMContentLoaded sample_page)"

section \<open>Properties of the document operations\<close>

lemma first_hit_None_iff: "first_hit hs = None \<longleftrightarrow> (\<forall>h\<in>set hs. h = None)"
  by (induction hs rule: first_hit.induct) auto

lemma first_hit_SomeD:
  "first_hit hs = Some r \<Longrightarrow> \<exists>k r'. r = k # r' \<and> k < length hs \<and> hs ! k = Some r'"
proof (induction hs arbitrary: r rule: first_hit.induct)
  case 1
  then show ?case by simp
next
  case (2 x hs)
  then show ?case by auto
next
  case (3 hs)
  then obtain r0 where r0: "first_hit hs = Some r0" and r: "r = bump r0" by auto
  from "3.IH"[OF r0] obtain k r' where "r0 = k # r'" "k < length hs" "hs ! k = Some r'" by blast
  with r show ?case by auto
qed

lemma first_hit_snoc_None: "first_hit (hs @ [None]) = first_hit hs"
  by (induction hs rule: first_hit.induct) auto

lemma first_hit_snoc_Some:
  "first_hit hs = None \<Longrightarrow> first_hit (hs @ [Some r]) = Some (length hs # r)"
  by (induction hs rule: first_hit.induct) auto

lemma first_hit_update_Some:
  "first_hit hs = None \<Longrightarrow> k < length hs \<Longrightarrow> first_hit (hs[k := Some r]) = Some (k # r)"
proof (induction hs arbitrary: k rule: first_hit.induct)
  case 1
  then show ?case by simp
next
  case (2 x hs)
  then show ?case by simp
next
  case (3 hs)
  then show ?case by (cases k) auto
qed

lemma map_update_same:
  "k < length es \<Longrightarrow> f e' = f (es ! k) \<Longrightarrow> map f (es[k := e']) = map f es"
  by (simp add: map_update list_update_same_conv)

lemma query_SomeD:
  "query P e = Some r \<Longrightarrow>
     (case e of Element a \<Rightarrow> r = [] \<and> P a | Container cs \<Rightarrow> first_hit (map (query P) cs) = Some r)"
  by (cases e) (auto split: if_splits)

lemma first_hit_lookup:
  "first_hit (map (query P) es) = Some r \<Longrightarrow> \<exists>a. lookup r es = Some a \<and> P a"
proof (induction r arbitrary: es)
  case Nil
  then show ?case by (auto dest: first_hit_SomeD)
next
  case (Cons k r)
  from first_hit_SomeD[OF Cons.prems]
  have k: "k < length es" and q: "query P (es ! k) = Some r" by auto
  show ?case
  proof (cases "es ! k")
    case (Element a)
    with q k show ?thesis by (auto split: if_splits)
  next
    case (Container cs)
    with q have "first_hit (map (query P) cs) = Some r" by simp
    from Cons.IH[OF this] Container k show ?thesis by auto
  qed
qed

lemma querySelector_lookup:
  "querySelector P doc = Some r \<Longrightarrow> \<exists>a. lookup r doc = Some a \<and> P a"
  unfolding querySelector_def by (rule first_hit_lookup)

lemma getElementById_lookup:
  "getElementById i doc = Some r \<Longrightarrow> \<exists>a. lookup r doc = Some a \<and> el_id a = i"
  unfolding getElementById_def by (auto split: if_splits dest: querySelector_lookup)

lemma map_query_modify:
  "(\<And>a. P (f a) = P a) \<Longrightarrow> map (query P) (modify r f es) = map (query P) es"
proof (induction r arbitrary: es)
  case Nil
  then show ?case by simp
next
  case (Cons k r)
  show ?case
  proof (cases "k < length es")
    case False
    then show ?thesis by simp
  next
    case True
    have "query P (case es ! k of
                      Element a \<Rightarrow> (if r = [] then Element (f a) else Element a)
                    | Container cs \<Rightarrow> Container (modify r f cs)) = query P (es ! k)"
      using Cons by (cases "es ! k") auto
    with True show ?thesis by (simp add: map_update_same)
  qed
qed

lemma querySelector_modify:
  "(\<And>a. P (f a) = P a) \<Longrightarrow> querySelector P (modify r f doc) = querySelector P doc"
  by (simp add: querySelector_def map_query_modify)

lemma first_hit_appendChild_other:
  "\<not> P a \<Longrightarrow> first_hit (map (query P) (appendChild q (Element a) es)) = first_hit (map (query P) es)"
proof (induction q arbitrary: es)
  case Nil
  then show ?case by (simp add: first_hit_snoc_None)
next
  case (Cons k r)
  show ?case
  proof (cases "k < length es")
    case False
    then show ?thesis by simp
  next
    case True
    have "query P (case es ! k of
                      Element b \<Rightarrow> Element b
                    | Container cs \<Rightarrow> Container (appendChild r (Element a) cs)) = query P (es ! k)"
      using Cons by (cases "es ! k") auto
    with True show ?thesis by (simp add: map_update_same)
  qed
qed

lemma first_hit_appendChild_new:
  "P a \<Longrightarrow> first_hit (map (query P) es) = None \<Longrightarrow> children q es = Some cs \<Longrightarrow>
   first_hit (map (query P) (appendChild q (Element a) es)) = Some (q @ [length cs])"
proof (induction q arbitrary: es)
  case Nil
  then show ?case using first_hit_snoc_Some[of "map (query P) es" "[]"] by simp
next
  case (Cons k r)
  from Cons.prems(3) obtain cs' where k: "k < length es" and ek: "es ! k = Container cs'"
    and ch: "children r cs' = Some cs"
    by (auto split: if_splits element.splits)
  from Cons.prems(2) k have "query P (es ! k) = None"
    by (simp add: first_hit_None_iff)
  with ek have "first_hit (map (query P) cs') = None" by simp
  from Cons.IH[OF Cons.prems(1) this ch]
  have "query P (Container (appendChild r (Element a) cs')) = Some (r @ [length cs])" by simp
  with k ek Cons.prems(2) show ?case
    by (simp add: map_update first_hit_update_Some)
qed

lemma lookup_modify_same:
  "lookup r (modify r f es) = map_option f (lookup r es)"
  by (induction r arbitrary: es) (auto split: element.splits)

lemma lookup_modify_other:
  "r \<noteq> r' \<Longrightarrow> lookup r (modify r' f es) = lookup r es"
proof (induction r' arbitrary: r es)
  case Nil
  then show ?case by simp
next
  case (Cons k r')
  then show ?case
    by (cases r) (auto simp: nth_list_update split: element.splits)
qed

lemma lookup_appendChild:
  "lookup r es = Some a \<Longrightarrow> lookup r (appendChild q n es) = Some a"
proof (induction q arbitrary: r es)
  case Nil
  then show ?case by (cases r) (auto simp: nth_append split: if_splits)
next
  case (Cons k q)
  then show ?case
    by (cases r) (auto simp: nth_list_update split: element.splits if_splits)
qed

lemma lookup_appendChild_new:
  "children q es = Some cs \<Longrightarrow> lookup (q @ [length cs]) (appendChild q (Element a) es) = Some a"
  by (induction q arbitrary: es) (auto split: element.splits if_splits)

lemma lookup_children:
  "lookup r es = Some a \<Longrightarrow> \<exists>cs. children (butlast r) es = Some cs"
  by (induction r arbitrary: es) (auto split: element.splits if_splits)

lemma children_appendChild:
  "children q es = Some cs \<Longrightarrow> children q (appendChild q n es) = Some (cs @ [n])"
  by (induction q arbitrary: es) (auto split: element.splits if_splits)

lemma query_None_iff_count: "query P e = None \<longleftrightarrow> count_el P e = 0"
proof (induction e)
  case (Element a)
  then show ?case by simp
next
  case (Container es)
  have "first_hit (map (query P) es) = None \<longleftrightarrow> (\<forall>e\<in>set es. query P e = None)"
    by (simp add: first_hit_None_iff)
  also have "\<dots> \<longleftrightarrow> (\<forall>e\<in>set es. count_el P e = 0)"
    using Container by blast
  also have "\<dots> \<longleftrightarrow> sum_list (map (count_el P) es) = 0"
    by simp
  finally show ?case by simp
qed

lemma querySelector_None_iff_count:
  "querySelector P doc = None \<longleftrightarrow> sum_list (map (count_el P) doc) = 0"
  by (simp add: querySelector_def first_hit_None_iff query_None_iff_count)

lemma map_count_modify:
  "(\<And>a. P (f a) = P a) \<Longrightarrow> map (count_el P) (modify r f es) = map (count_el P) es"
proof (induction r arbitrary: es)
  case Nil
  then show ?case by simp
next
  case (Cons k r)
  show ?case
  proof (cases "k < length es")
    case False
    then show ?thesis by simp
  next
    case True
    have "count_el P (case es ! k of
                      Element a \<Rightarrow> (if r = [] then Element (f a) else Element a)
                    | Container cs \<Rightarrow> Container (modify r f cs)) = count_el P (es ! k)"
      using Cons by (cases "es ! k") auto
    with True show ?thesis by (simp add: map_update_same)
  qed
qed

lemma count_appendChild:
  "children q es = Some cs \<Longrightarrow>
   sum_list (map (count_el P) (appendChild q (Element a) es)) =
   sum_list (map (count_el P) es) + (if P a then 1 else 0)"
proof (induction q arbitrary: es)
  case Nil
  then show ?case by simp
next
  case (Cons k r)
  from Cons.prems obtain cs' where k: "k < length es" and ek: "es ! k = Container cs'"
    and ch: "children r cs' = Some cs"
    by (auto split: if_splits element.splits)
  have le: "count_el P (es ! k) \<le> sum_list (map (count_el P) es)"
  proof -
    have "count_el P (es ! k) \<in> set (map (count_el P) es)" using k by simp
    then show ?thesis by (simp add: member_le_sum_list)
  qed
  from Cons.IH[OF ch] k ek le show ?case
    by (simp add: map_update sum_list_update)
qed

lemma attached_modify:
  "(\<And>a. el_id (f a) = el_id a) \<Longrightarrow> attached i v doc \<Longrightarrow> attached i v (modify r f doc)"
  unfolding attached_def
  by (cases v; cases "the v = r")
     (auto simp: lookup_modify_same lookup_modify_other split: option.splits)

lemma attached_appendChild:
  "attached i v doc \<Longrightarrow> attached i v (appendChild q n doc)"
  unfolding attached_def
  by (auto simp: lookup_appendChild split: option.splits)

lemma attached_getElementById: "attached i (getElementById i doc) doc"
  unfolding attached_def
  by (auto split: option.splits dest: getElementById_lookup)

lemma feedback_for_cases:
  "feedback_for inp i doc = Inr (fb, doc1) \<Longrightarrow>
     (getElementById i doc = Some fb \<and> doc1 = doc) \<or>
     (getElementById i doc = None \<and>
      (\<exists>cs. children (butlast inp) doc = Some cs \<and> fb = butlast inp @ [length cs] \<and>
         doc1 = appendChild (butlast inp) (Element (new_div\<lparr>el_id := i, className := lit ''form-text''\<rparr>)) doc))"
  unfolding feedback_for_def createFeedbackElement_def
  by (auto simp: Let_def split: option.splits)

lemma feedback_for_attached:
  "feedback_for inp i doc = Inr (fb, doc1) \<Longrightarrow> attached j v doc \<Longrightarrow> attached j v doc1"
  by (auto dest!: feedback_for_cases simp: attached_appendChild)

lemma feedback_for_Inl:
  "feedback_for inp i doc = Inl e \<Longrightarrow> lookup inp doc = None"
  unfolding feedback_for_def createFeedbackElement_def
  by (cases "lookup inp doc") (auto simp: Let_def split: option.splits dest: lookup_children)

lemma getElementById_appendChild_new:
  assumes "i \<noteq> []" "getElementById i doc = None" "children q doc = Some cs" "el_id a = i"
  shows "getElementById i (appendChild q (Element a) doc) = Some (q @ [length cs])"
  using assms first_hit_appendChild_new[of "\<lambda>a. el_id a = i" a doc q cs]
  by (simp add: getElementById_def querySelector_def)

lemma feedback_for_found:
  "feedback_for inp i doc = Inr (fb, doc1) \<Longrightarrow> i \<noteq> [] \<Longrightarrow> getElementById i doc1 = Some fb"
  by (auto dest!: feedback_for_cases simp: getElementById_appendChild_new new_div_def)

lemma feedback_for_total:
  "lookup inp doc = Some a \<Longrightarrow> \<exists>fb doc1. feedback_for inp i doc = Inr (fb, doc1)"
  by (cases "feedback_for inp i doc") (auto dest: feedback_for_Inl)

lemma getElementById_modify:
  "(\<And>a. el_id (f a) = el_id a) \<Longrightarrow> getElementById i (modify r f doc) = getElementById i doc"
  by (simp add: getElementById_def querySelector_modify)

lemma shown_modify:
  assumes "getElementById i doc = Some fb" "\<And>a. el_id (f a) = el_id a"
  shows "\<exists>b. lookup fb doc = Some b \<and> shown i (modify fb f doc) = Some (textContent (f b), color (f b))"
  using assms getElementById_lookup[OF assms(1)]
  by (auto simp: shown_def getElementById_modify lookup_modify_same)

lemma getElementById_appendChild_other:
  "el_id a \<noteq> j \<Longrightarrow> getElementById j (appendChild q (Element a) doc) = getElementById j doc"
  using first_hit_appendChild_other[of "\<lambda>a. el_id a = j" a q doc]
  by (simp add: getElementById_def querySelector_def)

lemma shown_appendChild_other:
  "el_id a \<noteq> j \<Longrightarrow> shown j (appendChild q (Element a) doc) = shown j doc"
  unfolding shown_def
  by (auto simp: getElementById_appendChild_other lookup_appendChild
           split: option.splits dest!: getElementById_lookup)

lemma shown_modify_other:
  assumes "lookup fb doc = Some b" "el_id b \<noteq> j" "\<And>a. el_id (f a) = el_id a"
  shows "shown j (modify fb f doc) = shown j doc"
proof (cases "getElementById j doc")
  case None
  then show ?thesis using assms(3) by (simp add: shown_def getElementById_modify)
next
  case (Some r)
  from getElementById_lookup[OF Some] assms(1,2) have "r \<noteq> fb" by auto
  then show ?thesis using Some assms(3)
    by (simp add: shown_def getElementById_modify lookup_modify_other)
qed

lemma shown_modify_value:
  "shown j (modify r (\<lambda>a. a\<lparr>el_value := v\<rparr>) doc) = shown j doc"
proof (cases "getElementById j doc")
  case None
  then show ?thesis by (simp add: shown_def getElementById_modify)
next
  case (Some q)
  then show ?thesis
    by (cases "q = r"; cases "lookup q doc")
       (auto simp: shown_def getElementById_modify lookup_modify_other lookup_modify_same)
qed

section \<open>Properties of the handlers and the invariant\<close>

lemma settle_fields:
  "timers (settle out s) = timers s"
  "requests (settle out s) = requests s"
  "settled (settle out s) = settled s"
  "uncaught (settle out s) = uncaught s"
  "now (settle out s) = now s"
  "next_timer (settle out s) = next_timer s"
  "usernameTimeout (settle out s) = usernameTimeout s"
  "usernameInput (settle out s) = usernameInput s"
  "emailInput (settle out s) = emailInput s"
  "passwordInput (settle out s) = passwordInput s"
  "confirmPasswordInput (settle out s) = confirmPasswordInput s"
  by (cases out; simp add: catch_log_def split: option.splits sum.splits prod.splits)+

lemma email_onblur_fields:
  "timers (email_onblur p s) = timers s"
  "requests (email_onblur p s) = requests s"
  "settled (email_onblur p s) = settled s"
  "console (email_onblur p s) = console s"
  "now (email_onblur p s) = now s"
  "next_timer (email_onblur p s) = next_timer s"
  "usernameTimeout (email_onblur p s) = usernameTimeout s"
  "usernameInput (email_onblur p s) = usernameInput s"
  "emailInput (email_onblur p s) = emailInput s"
  "passwordInput (email_onblur p s) = passwordInput s"
  "confirmPasswordInput (email_onblur p s) = confirmPasswordInput s"
  by (simp add: email_onblur_def Let_def split: option.splits sum.splits prod.splits)+

lemma confirm_oninput_fields:
  "timers (confirm_oninput p s) = timers s"
  "requests (confirm_oninput p s) = requests s"
  "settled (confirm_oninput p s) = settled s"
  "console (confirm_oninput p s) = console s"
  "now (confirm_oninput p s) = now s"
  "next_timer (confirm_oninput p s) = next_timer s"
  "usernameTimeout (confirm_oninput p s) = usernameTimeout s"
  "usernameInput (confirm_oninput p s) = usernameInput s"
  "emailInput (confirm_oninput p s) = emailInput s"
  "passwordInput (confirm_oninput p s) = passwordInput s"
  "confirmPasswordInput (confirm_oninput p s) = confirmPasswordInput s"
  by (simp add: confirm_oninput_def Let_def split: option.splits sum.splits prod.splits)+

lemma username_oninput_fields:
  "document (username_oninput p s) = document s"
  "requests (username_oninput p s) = requests s"
  "settled (username_oninput p s) = settled s"
  "console (username_oninput p s) = console s"
  "uncaught (username_oninput p s) = uncaught s"
  "now (username_oninput p s) = now s"
  "usernameInput (username_oninput p s) = usernameInput s"
  "emailInput (username_oninput p s) = emailInput s"
  "passwordInput (username_oninput p s) = passwordInput s"
  "confirmPasswordInput (username_oninput p s) = confirmPasswordInput s"
  by (simp add: username_oninput_def clearTimeout_def setTimeout_def Let_def split: option.splits)+

lemma username_oninput_timers:
  assumes "one_timer s"
  shows "timers (username_oninput p s) =
           (if length (trim (value_at p (document s))) < 3 then []
            else [\<lparr>timer_id = next_timer s, deadline = now s + 500,
                   captured = trim (value_at p (document s))\<rparr>])"
    and "usernameTimeout (username_oninput p s) =
           (if length (trim (value_at p (document s))) < 3 then usernameTimeout s
            else Some (next_timer s))"
  using assms
  by (auto simp: one_timer_def username_oninput_def clearTimeout_def setTimeout_def Let_def
           split: option.splits list.splits)

lemma timer_callback_fields:
  "document (timer_callback t s) = document s"
  "timers (timer_callback t s) = timers s"
  "settled (timer_callback t s) = settled s"
  "console (timer_callback t s) = console s"
  "now (timer_callback t s) = now s"
  "next_timer (timer_callback t s) = next_timer s"
  "usernameTimeout (timer_callback t s) = usernameTimeout s"
  "usernameInput (timer_callback t s) = usernameInput s"
  "emailInput (timer_callback t s) = emailInput s"
  "passwordInput (timer_callback t s) = passwordInput s"
  "confirmPasswordInput (timer_callback t s) = confirmPasswordInput s"
  by (simp add: timer_callback_def split: option.splits)+

lemma timer_callback_requests:
  "requests (timer_callback t s) =
     (case querySelector (\<lambda>a. el_name a = lit ''csrf_token'') (document s) of
        None \<Rightarrow> requests s
      | Some field \<Rightarrow> requests s @ [\<lparr>req_csrf = value_at field (document s), req_username = captured t\<rparr>])"
  by (simp add: timer_callback_def split: option.splits)

lemma fold_timer_callback_fields:
  "document (fold timer_callback ts s) = document s"
  "timers (fold timer_callback ts s) = timers s"
  "settled (fold timer_callback ts s) = settled s"
  "console (fold timer_callback ts s) = console s"
  "now (fold timer_callback ts s) = now s"
  "next_timer (fold timer_callback ts s) = next_timer s"
  "usernameTimeout (fold timer_callback ts s) = usernameTimeout s"
  "usernameInput (fold timer_callback ts s) = usernameInput s"
  "emailInput (fold timer_callback ts s) = emailInput s"
  "passwordInput (fold timer_callback ts s) = passwordInput s"
  "confirmPasswordInput (fold timer_callback ts s) = confirmPasswordInput s"
  by (induction ts arbitrary: s; simp add: timer_callback_fields)+

lemma fold_timer_callback_requests:
  "requests (fold timer_callback ts s) =
     (case querySelector (\<lambda>a. el_name a = lit ''csrf_token'') (document s) of
        None \<Rightarrow> requests s
      | Some field \<Rightarrow> requests s @
          map (\<lambda>t. \<lparr>req_csrf = value_at field (document s), req_username = captured t\<rparr>) ts)"
  by (induction ts arbitrary: s)
     (auto simp: timer_callback_requests timer_callback_fields split: option.splits)

lemma settle_attached:
  "attached j v (document s) \<Longrightarrow> attached j v (document (settle out s))"
  by (cases out)
     (auto simp: catch_log_def attached_modify split: option.splits sum.splits prod.splits
           dest: feedback_for_attached)

lemma email_onblur_attached:
  "attached j v (document s) \<Longrightarrow> attached j v (document (email_onblur p s))"
  by (auto simp: email_onblur_def Let_def attached_modify split: option.splits sum.splits prod.splits
           dest: feedback_for_attached)

lemma confirm_oninput_attached:
  "attached j v (document s) \<Longrightarrow> attached j v (document (confirm_oninput p s))"
  by (auto simp: confirm_oninput_def Let_def attached_modify split: option.splits sum.splits prod.splits
           dest: feedback_for_attached)


lemma invariant_DOMContentLoaded: "invariant (DOMContentLoaded doc)"
  by (simp add: invariant_def DOMContentLoaded_def attached_getElementById one_timer_def)

lemma one_timer_filter:
  "one_timer s \<Longrightarrow> timers s' = filter P (timers s) \<Longrightarrow> usernameTimeout s' = usernameTimeout s
   \<Longrightarrow> one_timer s'"
  by (auto simp: one_timer_def split: list.splits if_splits)

lemma one_timer_eq:
  "timers s' = timers s \<Longrightarrow> usernameTimeout s' = usernameTimeout s \<Longrightarrow> one_timer s' = one_timer s"
  by (simp add: one_timer_def split: list.splits)

lemma invariant_transfer:
  assumes "invariant s"
    and "\<And>j v. attached j v (document s) \<Longrightarrow> attached j v (document s')"
    and "usernameInput s' = usernameInput s" "emailInput s' = emailInput s"
    and "passwordInput s' = passwordInput s" "confirmPasswordInput s' = confirmPasswordInput s"
    and "timers s' = timers s" "requests s' = requests s"
    and "usernameTimeout s' = usernameTimeout s"
  shows "invariant s'"
proof -
  have "one_timer s' = one_timer s"
    using assms(7,9) by (rule one_timer_eq)
  moreover have "attached (lit ''username'') (usernameInput s') (document s')"
    using assms(1) assms(2)[of "lit ''username''" "usernameInput s"] assms(3)
    by (simp add: invariant_def)
  moreover have "attached (lit ''email'') (emailInput s') (document s')"
    using assms(1) assms(2)[of "lit ''email''" "emailInput s"] assms(4)
    by (simp add: invariant_def)
  moreover have "attached (lit ''password'') (passwordInput s') (document s')"
    using assms(1) assms(2)[of "lit ''password''" "passwordInput s"] assms(5)
    by (simp add: invariant_def)
  moreover have "attached (lit ''confirm_password'') (confirmPasswordInput s') (document s')"
    using assms(1) assms(2)[of "lit ''confirm_password''" "confirmPasswordInput s"] assms(6)
    by (simp add: invariant_def)
  ultimately show ?thesis
    using assms(1,3,7,8) by (simp add: invariant_def)
qed

lemma inv_confirm: "invariant s2 \<Longrightarrow> invariant (confirm_oninput target s2)"
  by (erule invariant_transfer) (simp_all add: confirm_oninput_fields confirm_oninput_attached)

lemma inv_blur: "invariant s \<Longrightarrow> invariant (email_onblur target s)"
  by (erule invariant_transfer) (simp_all add: email_onblur_fields email_onblur_attached)

lemma inv_settle: "invariant s \<Longrightarrow> invariant (settle out (s\<lparr>settled := i # settled s\<rparr>))"
proof (erule invariant_transfer)
  fix j v assume "attached j v (document s)"
  then show "attached j v (document (settle out (s\<lparr>settled := i # settled s\<rparr>)))"
    using settle_attached[of j v "s\<lparr>settled := i # settled s\<rparr>" out] by simp
qed (simp_all add: settle_fields)

lemma inv_value: "invariant s \<Longrightarrow> invariant (s\<lparr>document := modify target (\<lambda>a. a\<lparr>el_value := v\<rparr>) (document s)\<rparr>)"
  by (erule invariant_transfer) (simp_all add: attached_modify)

lemma inv_username:
  assumes "invariant s" "usernameInput s = Some target"
  shows "invariant (username_oninput target s)"
proof -
  from assms have ot: "one_timer s" by (simp add: invariant_def)
  have a: "one_timer (username_oninput target s)"
    using username_oninput_timers[OF ot, of target]
    by (simp add: one_timer_def)
  have b: "list_all (\<lambda>t. 3 \<le> length (captured t)) (timers (username_oninput target s))"
    using username_oninput_timers(1)[OF ot, of target] by simp
  show ?thesis
    using assms a b by (simp add: invariant_def username_oninput_fields)
qed

lemma step_Elapse_fields:
  "document (step (Elapse d) s) = document s"
  "timers (step (Elapse d) s) = filter (\<lambda>x. \<not> deadline x \<le> now s + d) (timers s)"
  "now (step (Elapse d) s) = now s + d"
  "usernameTimeout (step (Elapse d) s) = usernameTimeout s"
  "usernameInput (step (Elapse d) s) = usernameInput s"
  "emailInput (step (Elapse d) s) = emailInput s"
  "passwordInput (step (Elapse d) s) = passwordInput s"
  "confirmPasswordInput (step (Elapse d) s) = confirmPasswordInput s"
  "settled (step (Elapse d) s) = settled s"
  "console (step (Elapse d) s) = console s"
  "next_timer (step (Elapse d) s) = next_timer s"
  by (simp_all add: Let_def fold_timer_callback_fields)

lemma step_Elapse_requests:
  "requests (step (Elapse d) s) =
     (case querySelector (\<lambda>a. el_name a = lit ''csrf_token'') (document s) of
        None \<Rightarrow> requests s
      | Some field \<Rightarrow> requests s @
          map (\<lambda>t. \<lparr>req_csrf = value_at field (document s), req_username = captured t\<rparr>)
            (filter (\<lambda>x. deadline x \<le> now s + d) (timers s)))"
  by (simp add: Let_def fold_timer_callback_requests split: option.splits)

declare step.simps [simp del]

lemma one_timer_Elapse: "invariant s \<Longrightarrow> one_timer (step (Elapse d) s)"
  by (rule one_timer_filter[of s _ "\<lambda>x. \<not> deadline x \<le> now s + d"])
      (simp_all add: invariant_def step_Elapse_fields)


lemma timers_ok_Elapse: "invariant s \<Longrightarrow> list_all (\<lambda>t. 3 \<le> length (captured t)) (timers (step (Elapse d) s))"
  by (simp add: step_Elapse_fields invariant_def list_all_iff)

lemma no_timers_Elapse: "invariant s \<Longrightarrow> usernameInput s = None \<Longrightarrow> timers (step (Elapse d) s) = []"
  by (simp add: step_Elapse_fields invariant_def)


lemma requests_ok_Elapse:
  assumes "invariant s"
  shows "list_all (\<lambda>r. 3 \<le> length (req_username r)) (requests (step (Elapse d) s))"
proof -
  from assms have a: "list_all (\<lambda>r. 3 \<le> length (req_username r)) (requests s)"
    and b: "list_all (\<lambda>t. 3 \<le> length (captured t)) (timers s)"
    by (simp_all add: invariant_def)
  from b have "list_all (\<lambda>t. 3 \<le> length (captured t)) (filter (\<lambda>x. deadline x \<le> now s + d) (timers s))"
    by (simp add: list_all_iff)
  then have "list_all (\<lambda>r. 3 \<le> length (req_username r))
     (map (\<lambda>t. \<lparr>req_csrf = c, req_username = captured t\<rparr>) (filter (\<lambda>x. deadline x \<le> now s + d) (timers s)))" for c
    by (simp add: list_all_iff)
  with a show ?thesis
    by (simp add: step_Elapse_requests split: option.splits)
qed

lemma no_requests_Elapse:
  assumes "invariant s" "usernameInput s = None"
  shows "requests (step (Elapse d) s) = []"
proof -
  from assms have "requests s = []" "timers s = []" by (simp_all add: invariant_def)
  then show ?thesis by (simp add: step_Elapse_requests split: option.splits)
qed


lemma inv_elapse:
  assumes inv: "invariant s"
  shows "invariant (step (Elapse d) s)"
proof -
  let ?s' = "step (Elapse d) s"
  have at: "attached (lit ''username'') (usernameInput ?s') (document ?s')"
      "attached (lit ''email'') (emailInput ?s') (document ?s')"
      "attached (lit ''password'') (passwordInput ?s') (document ?s')"
      "attached (lit ''confirm_password'') (confirmPasswordInput ?s') (document ?s')"
    using inv by (simp_all add: step_Elapse_fields invariant_def)
  have u: "usernameInput ?s' = None \<longrightarrow> requests ?s' = [] \<and> timers ?s' = []"
    using no_timers_Elapse[OF inv] no_requests_Elapse[OF inv] by (simp add: step_Elapse_fields)
  from at u one_timer_Elapse[OF inv] timers_ok_Elapse[OF inv] requests_ok_Elapse[OF inv] show ?thesis
    unfolding invariant_def by blast
qed

lemma invariant_step: "invariant s \<Longrightarrow> invariant (step e s)"
proof (cases e)
  case (Input target v)
  assume inv: "invariant s"
  show ?thesis
  proof (cases "lookup target (document s)")
    case None
    with inv Input show ?thesis by (simp add: step.simps)
  next
    case (Some a)
    define s1 where "s1 = s\<lparr>document := modify target (\<lambda>a. a\<lparr>el_value := v\<rparr>) (document s)\<rparr>"
    define s2 where "s2 = (if usernameInput s1 = Some target then username_oninput target s1 else s1)"
    define s3 where "s3 = (if passwordInput s2 \<noteq> None \<and> confirmPasswordInput s2 = Some target
              then confirm_oninput target s2 else s2)"
    have st: "step e s = s3"
      by (simp only: Input step.simps Some option.case Let_def s1_def s2_def s3_def)
    have i1: "invariant s1"
      unfolding s1_def using inv by (rule inv_value)
    have i2: "invariant s2"
      unfolding s2_def using i1 by (simp add: inv_username)
    have i3: "invariant s3"
      unfolding s3_def using i2 by (simp add: inv_confirm)
    with st show ?thesis by simp
  qed
next
  case (Blur target)
  assume "invariant s"
  then show ?thesis using Blur by (simp add: inv_blur step.simps)
next
  case (Elapse d)
  assume "invariant s"
  then show ?thesis using Elapse by (simp only: inv_elapse)
next
  case (Settle i out)
  assume "invariant s"
  then show ?thesis using Settle by (simp add: inv_settle step.simps)
qed

lemma invariant_run: "invariant s \<Longrightarrow> invariant (run evs s)"
  unfolding run_def by (induction evs arbitrary: s) (simp_all add: invariant_step)

lemma invariant_reachable: "invariant (run evs (DOMContentLoaded doc))"
  by (simp add: invariant_run invariant_DOMContentLoaded)

lemma pending_username:
  assumes "invariant s" "i < length (requests s)"
  shows "\<exists>p a. usernameInput s = Some p \<and> lookup p (document s) = Some a"
proof -
  from assms have "usernameInput s \<noteq> None" by (auto simp: invariant_def)
  then obtain p where p: "usernameInput s = Some p" by blast
  with assms(1) have "attached (lit ''username'') (Some p) (document s)"
    by (simp add: invariant_def)
  with p show ?thesis by (auto simp: attached_def split: option.splits)
qed

lemma step_Settle_pending:
  "i < length (requests s) \<Longrightarrow> i \<notin> set (settled s) \<Longrightarrow>
   step (Settle i out) s = settle out (s\<lparr>settled := i # settled s\<rparr>)"
  by (simp add: step.simps)

lemma settle_Json_shown:
  assumes "usernameInput s = Some p" "lookup p (document s) = Some a"
    and "get_available data = Inr v"
  shows "shown (lit ''username-feedback'') (document (settle (Json data) s)) =
           Some (if truthy v then (lit ''Username is available'', lit ''#198754'')
                 else (lit ''Username is already taken'', lit ''#dc3545''))"
    and "console (settle (Json data) s) = console s"
proof -
  from feedback_for_total[OF assms(2)] obtain fb doc1
    where f: "feedback_for p (lit ''username-feedback'') (document s) = Inr (fb, doc1)" by blast
  have "lit ''username-feedback'' \<noteq> []" by (simp add: lit_def)
  with f have g: "getElementById (lit ''username-feedback'') doc1 = Some fb"
    by (rule feedback_for_found)
  show "shown (lit ''username-feedback'') (document (settle (Json data) s)) =
           Some (if truthy v then (lit ''Username is available'', lit ''#198754'')
                 else (lit ''Username is already taken'', lit ''#dc3545''))"
  proof (cases "truthy v")
    case True
    from shown_modify[OF g, of "\<lambda>a. a\<lparr>textContent := lit ''Username is available'',
                                  color := lit ''#198754''\<rparr>"]
    show ?thesis using assms(1,3) f True by auto
  next
    case False
    from shown_modify[OF g, of "\<lambda>a. a\<lparr>textContent := lit ''Username is already taken'',
                                  color := lit ''#dc3545''\<rparr>"]
    show ?thesis using assms(1,3) f False by auto
  qed
  show "console (settle (Json data) s) = console s"
    using assms(1,3) f by simp
qed

lemma get_available_not_null: "data \<noteq> JNull \<Longrightarrow> \<exists>v. get_available data = Inr v"
  by (cases data) simp_all

lemma regex_test_Char:
  "regex_test (Char c # r) s \<longleftrightarrow> (\<exists>b. s = c # b \<and> regex_test r b)"
  by (cases s) auto

lemma regex_test_Plus:
  "regex_test (Plus p # r) s \<longleftrightarrow>
     (\<exists>a b. s = a @ b \<and> a \<noteq> [] \<and> list_all p a \<and> regex_test r b)"
proof (induction s)
  case Nil
  then show ?case by simp
next
  case (Cons x xs)
  show ?case
  proof
    assume l: "regex_test (Plus p # r) (x # xs)"
    then have px: "p x" by simp
    from l have "regex_test (Plus p # r) xs \<or> regex_test r xs" by simp
    then show "\<exists>a b. x # xs = a @ b \<and> a \<noteq> [] \<and> list_all p a \<and> regex_test r b"
    proof
      assume "regex_test (Plus p # r) xs"
      with Cons.IH obtain a b where "xs = a @ b" "list_all p a" "regex_test r b" by blast
      with px have "x # xs = (x # a) @ b \<and> x # a \<noteq> [] \<and> list_all p (x # a) \<and> regex_test r b"
        by simp
      then show ?thesis by blast
    next
      assume "regex_test r xs"
      with px have "x # xs = [x] @ xs \<and> [x] \<noteq> [] \<and> list_all p [x] \<and> regex_test r xs"
        by simp
      then show ?thesis by blast
    qed
  next
    assume "\<exists>a b. x # xs = a @ b \<and> a \<noteq> [] \<and> list_all p a \<and> regex_test r b"
    then obtain a b where ab: "x # xs = a @ b" "a \<noteq> []" "list_all p a" "regex_test r b"
      by blast
    then obtain a' where a': "a = x # a'" "xs = a' @ b" by (cases a) auto
    with ab have px: "p x" and pa: "list_all p a'" by simp_all
    show "regex_test (Plus p # r) (x # xs)"
    proof (cases "a' = []")
      case True
      with a' ab px show ?thesis by simp
    next
      case False
      with a' pa ab(4) Cons.IH have "regex_test (Plus p # r) xs" by blast
      with px show ?thesis by simp
    qed
  qed
qed

lemma emailRegex_test: "regex_test emailRegex s \<longleftrightarrow> email_pattern s"
proof
  assume "regex_test emailRegex s"
  then obtain a r1 where 1: "s = a @ r1" "a \<noteq> []" "list_all not_space_at a"
      "regex_test [Char 0x40, Plus not_space_at, Char 0x2E, Plus not_space_at] r1"
    unfolding emailRegex_def regex_test_Plus[of _ "[Char 0x40, Plus not_space_at, Char 0x2E, Plus not_space_at]"]
    by blast
  then obtain r2 where 2: "r1 = 0x40 # r2" "regex_test [Plus not_space_at, Char 0x2E, Plus not_space_at] r2"
    unfolding regex_test_Char by blast
  then obtain b r3 where 3: "r2 = b @ r3" "b \<noteq> []" "list_all not_space_at b"
      "regex_test [Char 0x2E, Plus not_space_at] r3"
    unfolding regex_test_Plus[of _ "[Char 0x2E, Plus not_space_at]"] by blast
  then obtain r4 where 4: "r3 = 0x2E # r4" "regex_test [Plus not_space_at] r4"
    unfolding regex_test_Char by blast
  then obtain c r5 where 5: "r4 = c @ r5" "c \<noteq> []" "list_all not_space_at c" "regex_test [] r5"
    unfolding regex_test_Plus[of _ "[]"] by blast
  then have "r5 = []" by simp
  with 1 2 3 4 5 have "s = a @ [0x40] @ b @ [0x2E] @ c" by simp
  with 1 3 5 show "email_pattern s" unfolding email_pattern_def by blast
next
  assume "email_pattern s"
  then obtain a b c where s: "s = a @ [0x40] @ b @ [0x2E] @ c" and ne: "a \<noteq> []" "b \<noteq> []" "c \<noteq> []"
    and al: "list_all not_space_at a" "list_all not_space_at b" "list_all not_space_at c"
    unfolding email_pattern_def by blast
  have 5: "regex_test [Plus not_space_at] c"
    unfolding regex_test_Plus[of _ "[]"] using ne al by (intro exI[of _ c] exI[of _ "[]"]) simp
  then have 4: "regex_test [Char 0x2E, Plus not_space_at] (0x2E # c)" by simp
  have 3: "regex_test [Plus not_space_at, Char 0x2E, Plus not_space_at] (b @ 0x2E # c)"
    unfolding regex_test_Plus[of _ "[Char 0x2E, Plus not_space_at]"]
    using ne al 4 by (intro exI[of _ b] exI[of _ "0x2E # c"]) simp
  then have 2: "regex_test [Char 0x40, Plus not_space_at, Char 0x2E, Plus not_space_at] (0x40 # b @ 0x2E # c)"
    by simp
  have "regex_test emailRegex (a @ 0x40 # b @ 0x2E # c)"
    unfolding emailRegex_def regex_test_Plus[of _ "[Char 0x40, Plus not_space_at, Char 0x2E, Plus not_space_at]"]
    using ne al 2 by (intro exI[of _ a] exI[of _ "0x40 # b @ 0x2E # c"]) simp
  with s show "regex_test emailRegex s" by simp
qed


lemma feedback_for_other:
  assumes "feedback_for inp i doc = Inr (fb, doc1)" "i \<noteq> j" "i \<noteq> []"
  shows "shown j doc1 = shown j doc" and "\<exists>b. lookup fb doc1 = Some b \<and> el_id b = i"
proof -
  from feedback_for_found[OF assms(1,3)] show "\<exists>b. lookup fb doc1 = Some b \<and> el_id b = i"
    by (rule getElementById_lookup)
  from feedback_for_cases[OF assms(1)] assms(2) show "shown j doc1 = shown j doc"
    by (auto simp: shown_appendChild_other new_div_def)
qed

lemma feedback_for_modify_other:
  assumes "feedback_for inp i doc = Inr (fb, doc1)" "i \<noteq> j" "i \<noteq> []"
    and "\<And>a. el_id (f a) = el_id a"
  shows "shown j (modify fb f doc1) = shown j doc"
proof -
  from feedback_for_other(2)[OF assms(1-3)] obtain b
    where "lookup fb doc1 = Some b" "el_id b = i" by blast
  with assms(2) have "shown j (modify fb f doc1) = shown j doc1"
    using assms(4) by (intro shown_modify_other) auto
  with feedback_for_other(1)[OF assms(1-3)] show ?thesis by simp
qed

lemma settle_shown_other:
  assumes "j \<noteq> lit ''username-feedback''"
  shows "shown j (document (settle out s)) = shown j (document s)"
proof (cases out)
  case Fetch_rejected
  then show ?thesis by (simp add: catch_log_def)
next
  case Body_not_json
  then show ?thesis by (simp add: catch_log_def)
next
  case (Json data)
  have n: "lit ''username-feedback'' \<noteq> []" by (simp add: lit_def)
  show ?thesis
  proof (cases "usernameInput s")
    case None
    with Json show ?thesis by simp
  next
    case (Some p)
    show ?thesis
    proof (cases "feedback_for p (lit ''username-feedback'') (document s)")
      case (Inl e)
      with Json Some show ?thesis by (simp add: catch_log_def)
    next
      case (Inr r)
      obtain fb doc1 where r: "r = (fb, doc1)" by (cases r)
      note f = Inr[unfolded r]
      from assms have ne: "lit ''username-feedback'' \<noteq> j" by simp
      show ?thesis
        using Json Some f feedback_for_other(1)[OF f ne n]
          feedback_for_modify_other[OF f ne n]
        by (cases "get_available data") (simp_all add: catch_log_def)
    qed
  qed
qed

lemma email_onblur_shown_other:
  assumes "j \<noteq> lit ''email-feedback''"
  shows "shown j (document (email_onblur p s)) = shown j (document s)"
proof (cases "feedback_for p (lit ''email-feedback'') (document s)")
  case (Inl e)
  then show ?thesis by (simp add: email_onblur_def)
next
  case (Inr r)
  obtain fb doc1 where r: "r = (fb, doc1)" by (cases r)
  note f = Inr[unfolded r]
  have n: "lit ''email-feedback'' \<noteq> []" by (simp add: lit_def)
  from assms have ne: "lit ''email-feedback'' \<noteq> j" by simp
  show ?thesis
    using f feedback_for_modify_other[OF f ne n]
    by (simp add: email_onblur_def)
qed

lemma email_onblur_shown:
  assumes "lookup p (document s) = Some a"
  shows "if regex_test emailRegex (trim (value_at p (document s)))
         then map_option fst (shown (lit ''email-feedback'') (document (email_onblur p s))) = Some []
         else shown (lit ''email-feedback'') (document (email_onblur p s)) =
                Some (lit ''Please enter a valid email address'', lit ''#dc3545'')"
proof -
  from feedback_for_total[OF assms] obtain fb doc1
    where f: "feedback_for p (lit ''email-feedback'') (document s) = Inr (fb, doc1)" by blast
  have "lit ''email-feedback'' \<noteq> []" by (simp add: lit_def)
  with f have g: "getElementById (lit ''email-feedback'') doc1 = Some fb"
    by (rule feedback_for_found)
  show ?thesis
  proof (cases "regex_test emailRegex (trim (value_at p (document s)))")
    case True
    from shown_modify[OF g, of "\<lambda>a. a\<lparr>textContent := []\<rparr>"]
    show ?thesis using f True by (auto simp: email_onblur_def)
  next
    case False
    from shown_modify[OF g, of "\<lambda>a. a\<lparr>textContent := lit ''Please enter a valid email address'',
                           color := lit ''#dc3545''\<rparr>"]
    show ?thesis using f False by (auto simp: email_onblur_def)
  qed
qed

lemma feedback_for_lookup:
  "feedback_for inp i doc = Inr (fb, doc1) \<Longrightarrow> lookup r doc = Some a \<Longrightarrow> lookup r doc1 = Some a"
  by (auto dest!: feedback_for_cases simp: lookup_appendChild)

lemma confirm_oninput_shown:
  assumes "passwordInput s = Some pw" "lookup p (document s) = Some a"
    and "lookup pw (document s) = Some b"
  shows "shown (lit ''confirm-password-feedback'') (document (confirm_oninput p s)) =
           Some (if el_value a = el_value b then (lit ''Passwords match'', lit ''#198754'')
                 else (lit ''Passwords do not match'', lit ''#dc3545''))"
proof -
  from feedback_for_total[OF assms(2)] obtain fb doc1
    where f: "feedback_for p (lit ''confirm-password-feedback'') (document s) = Inr (fb, doc1)"
    by blast
  have "lit ''confirm-password-feedback'' \<noteq> []" by (simp add: lit_def)
  with f have g: "getElementById (lit ''confirm-password-feedback'') doc1 = Some fb"
    by (rule feedback_for_found)
  have va: "value_at p doc1 = el_value a"
    using feedback_for_lookup[OF f assms(2)] by (simp add: value_at_def)
  have vb: "value_at pw doc1 = el_value b"
    using feedback_for_lookup[OF f assms(3)] by (simp add: value_at_def)
  show ?thesis
  proof (cases "el_value a = el_value b")
    case True
    from shown_modify[OF g, of "\<lambda>a. a\<lparr>textContent := lit ''Passwords match'',
                             color := lit ''#198754''\<rparr>"]
    show ?thesis using f True assms(1) va vb by (auto simp: confirm_oninput_def)
  next
    case False
    from shown_modify[OF g, of "\<lambda>a. a\<lparr>textContent := lit ''Passwords do not match'',
                             color := lit ''#dc3545''\<rparr>"]
    show ?thesis using f False assms(1) va vb by (auto simp: confirm_oninput_def)
  qed
qed

lemma step_Input_document_inactive:
  assumes "passwordInput s = None \<or> confirmPasswordInput s \<noteq> Some t"
  shows "document (step (Input t v) s) =
           (case lookup t (document s) of
              None \<Rightarrow> document s
            | Some _ \<Rightarrow> modify t (\<lambda>a. a\<lparr>el_value := v\<rparr>) (document s))"
  using assms
  by (auto simp: step.simps Let_def username_oninput_fields split: option.splits)

lemma step_shown_inactive:
  assumes "passwordInput s = None \<or> confirmPasswordInput s = None"
  shows "shown (lit ''confirm-password-feedback'') (document (step e s)) =
         shown (lit ''confirm-password-feedback'') (document s)"
proof (cases e)
  case (Input t v)
  from assms have "passwordInput s = None \<or> confirmPasswordInput s \<noteq> Some t" by auto
  from step_Input_document_inactive[OF this] Input show ?thesis
    by (simp add: shown_modify_value split: option.splits)
next
  case (Blur t)
  have "lit ''confirm-password-feedback'' \<noteq> lit ''email-feedback''" by (simp add: lit_def)
  with Blur show ?thesis by (simp add: step.simps email_onblur_shown_other)
next
  case (Elapse d)
  then show ?thesis by (simp add: step_Elapse_fields)
next
  case (Settle i out)
  have "lit ''confirm-password-feedback'' \<noteq> lit ''username-feedback''" by (simp add: lit_def)
  from settle_shown_other[OF this, of out "s\<lparr>settled := i # settled s\<rparr>"] Settle
  show ?thesis by (simp add: step.simps)
qed

section \<open>Properties of the debounce\<close>

lemma run_Nil: "run [] s = s" by (simp add: run_def)
lemma run_Cons: "run (e # evs) s = run evs (step e s)" by (simp add: run_def)
lemma run_append: "run (xs @ ys) s = run ys (run xs s)" by (simp add: run_def)

lemma username_ref:
  assumes "invariant s" "usernameInput s = Some p"
  shows "\<exists>a. lookup p (document s) = Some a \<and> el_id a = lit ''username''"
  using assms by (auto simp: invariant_def attached_def split: option.splits)

lemma username_not_confirm:
  assumes "invariant s" "usernameInput s = Some p"
  shows "confirmPasswordInput s \<noteq> Some p"
proof
  assume c: "confirmPasswordInput s = Some p"
  from username_ref[OF assms] obtain a
    where a: "lookup p (document s) = Some a" "el_id a = lit ''username''" by blast
  from assms(1) c have "attached (lit ''confirm_password'') (Some p) (document s)"
    by (simp add: invariant_def)
  with a have "lit ''username'' = lit ''confirm_password''"
    by (simp add: attached_def)
  then show False by (simp add: lit_def)
qed

lemma step_Input_username:
  assumes "invariant s" "usernameInput s = Some p"
  shows "step (Input p v) s =
           username_oninput p (s\<lparr>document := modify p (\<lambda>a. a\<lparr>el_value := v\<rparr>) (document s)\<rparr>)"
proof -
  from username_ref[OF assms] obtain a where "lookup p (document s) = Some a" by blast
  with assms(2) username_not_confirm[OF assms] show ?thesis
    by (simp add: step.simps Let_def username_oninput_fields)
qed

lemma value_at_modify_same:
  "lookup p doc = Some a \<Longrightarrow> value_at p (modify p (\<lambda>a. a\<lparr>el_value := v\<rparr>) doc) = v"
  by (simp add: value_at_def lookup_modify_same)

lemma step_Input_username_effect:
  assumes "invariant s" "usernameInput s = Some p"
  shows "timers (step (Input p v) s) =
           (if length (trim v) < 3 then []
            else [\<lparr>timer_id = next_timer s, deadline = now s + 500, captured = trim v\<rparr>])"
    and "requests (step (Input p v) s) = requests s"
    and "now (step (Input p v) s) = now s"
    and "usernameInput (step (Input p v) s) = Some p"
    and "document (step (Input p v) s) = modify p (\<lambda>a. a\<lparr>el_value := v\<rparr>) (document s)"
proof -
  let ?s1 = "s\<lparr>document := modify p (\<lambda>a. a\<lparr>el_value := v\<rparr>) (document s)\<rparr>"
  note st = step_Input_username[OF assms, of v]
  from username_ref[OF assms] obtain a where a: "lookup p (document s) = Some a" by blast
  have v: "value_at p (document ?s1) = v"
    using a by (simp add: value_at_modify_same)
  have "one_timer ?s1 = one_timer s" by (rule one_timer_eq) simp_all
  with assms(1) have ot: "one_timer ?s1" by (simp add: invariant_def)
  show "timers (step (Input p v) s) =
           (if length (trim v) < 3 then []
            else [\<lparr>timer_id = next_timer s, deadline = now s + 500, captured = trim v\<rparr>])"
    using username_oninput_timers(1)[OF ot, of p] unfolding v st by simp
  show "requests (step (Input p v) s) = requests s"
    by (simp add: st username_oninput_fields)
  show "now (step (Input p v) s) = now s"
    by (simp add: st username_oninput_fields)
  show "usernameInput (step (Input p v) s) = Some p"
    using assms(2) by (simp add: st username_oninput_fields)
  show "document (step (Input p v) s) = modify p (\<lambda>a. a\<lparr>el_value := v\<rparr>) (document s)"
    by (simp add: st username_oninput_fields)
qed

lemma waiting_Input:
  assumes "invariant s" "usernameInput s = Some p"
  shows "waiting (trim v) (step (Input p v) s)"
  using assms step_Input_username_effect(1,3)[OF assms, of v]
  by (simp add: waiting_def invariant_step)

lemma waiting_Elapse:
  assumes "waiting u s" "d < 500"
  shows "requests (step (Elapse d) s) = requests s"
    and "timers (step (Elapse d) s) = timers s"
proof -
  from assms have "filter (\<lambda>x. deadline x \<le> now s + d) (timers s) = []"
    by (auto simp: waiting_def list_all_iff filter_empty_conv)
  then show "requests (step (Elapse d) s) = requests s"
    by (simp add: step_Elapse_requests split: option.splits)
  from assms have "filter (\<lambda>x. \<not> deadline x \<le> now s + d) (timers s) = timers s"
    by (auto simp: waiting_def list_all_iff filter_id_conv)
  then show "timers (step (Elapse d) s) = timers s"
    by (simp add: step_Elapse_fields)
qed

lemma waiting_keystrokes:
  assumes "waiting (trim v) s" "usernameInput s = Some p" "\<forall>(d, w) \<in> set ks. d < 500"
  shows "waiting (trim (last (v # map snd ks))) (run (keystrokes p ks) s) \<and>
         usernameInput (run (keystrokes p ks) s) = Some p \<and>
         requests (run (keystrokes p ks) s) = requests s \<and>
         querySelector (\<lambda>a. el_name a = n) (document (run (keystrokes p ks) s)) =
         querySelector (\<lambda>a. el_name a = n) (document s)"
  using assms
proof (induction ks arbitrary: s v)
  case Nil
  then show ?case by (simp add: run_Nil)
next
  case (Cons k ks)
  obtain d w where k: "k = (d, w)" by (cases k)
  with Cons.prems have d: "d < 500" by simp
  let ?s1 = "step (Elapse d) s"
  let ?s2 = "step (Input p w) ?s1"
  from Cons.prems(1) have inv1: "invariant ?s1" by (simp add: waiting_def invariant_step)
  have u1: "usernameInput ?s1 = Some p" using Cons.prems(2) by (simp add: step_Elapse_fields)
  have w2: "waiting (trim w) ?s2" using inv1 u1 by (rule waiting_Input)
  have u2: "usernameInput ?s2 = Some p" using inv1 u1 by (rule step_Input_username_effect(4))
  have r2: "requests ?s2 = requests s"
    using step_Input_username_effect(2)[OF inv1 u1, of w] waiting_Elapse(1)[OF Cons.prems(1) d]
    by simp
  have q2: "querySelector (\<lambda>a. el_name a = n) (document ?s2) =
            querySelector (\<lambda>a. el_name a = n) (document s)"
    using step_Input_username_effect(5)[OF inv1 u1, of w]
    by (simp add: querySelector_modify step_Elapse_fields)
  from Cons.prems(3) have "\<forall>(d, w) \<in> set ks. d < 500" by simp
  from Cons.IH[OF w2 u2 this] r2 q2 k show ?case
    by (simp add: run_Cons)
qed

lemma waiting_fire:
  assumes "waiting u s" "3 \<le> length u" "500 \<le> d"
    and "querySelector (\<lambda>a. el_name a = lit ''csrf_token'') (document s) = Some q"
  shows "requests (step (Elapse d) s) =
           requests s @ [\<lparr>req_csrf = value_at q (document s), req_username = u\<rparr>]"
    and "timers (step (Elapse d) s) = []"
proof -
  from assms(1,2) obtain t ts where t: "timers s = t # ts" 
    by (cases "timers s") (auto simp: waiting_def)
  from assms(1) have "one_timer s" by (simp add: waiting_def invariant_def)
  with t have ts: "timers s = [t]" by (simp add: one_timer_def)
  with assms(1) have tt: "deadline t = now s + 500" "captured t = u"
    by (simp_all add: waiting_def)
  with assms(3) have due: "deadline t \<le> now s + d" by simp
  show "requests (step (Elapse d) s) =
           requests s @ [\<lparr>req_csrf = value_at q (document s), req_username = u\<rparr>]"
    using ts tt due assms(4) by (simp add: step_Elapse_requests)
  show "timers (step (Elapse d) s) = []"
    using ts due by (simp add: step_Elapse_fields)
qed

lemma run_Elapse_idle:
  "timers s = [] \<Longrightarrow> requests (run (map Elapse ds) s) = requests s \<and> timers (run (map Elapse ds) s) = []"
proof (induction ds arbitrary: s)
  case Nil
  then show ?case by (simp add: run_Nil)
next
  case (Cons d ds)
  have "timers (step (Elapse d) s) = []" "requests (step (Elapse d) s) = requests s"
    using Cons.prems by (simp_all add: step_Elapse_fields step_Elapse_requests split: option.splits)
  with Cons.IH[of "step (Elapse d) s"] show ?case by (simp add: run_Cons)
qed

lemma requests_long:
  assumes "invariant s" "r \<in> set (requests (run evs s))"
  shows "3 \<le> length (req_username r)"
proof -
  from assms(1) have "invariant (run evs s)" by (rule invariant_run)
  with assms(2) show ?thesis by (simp add: invariant_def list_all_iff)
qed

section \<open>What is thrown, and when nothing is\<close>

text \<open>
  Nothing the script does removes or renames the token field, and a listener only runs
  on an element of the document. So on a page that has the token field no exception
  escapes, whatever happens; and on a page without the username input no timer is ever
  set and no request is ever made.
\<close>

lemma feedback_for_querySelector:
  assumes "feedback_for inp i doc = Inr (fb, doc1)"
    and "\<not> P (new_div\<lparr>el_id := i, className := lit ''form-text''\<rparr>)"
  shows "querySelector P doc1 = querySelector P doc"
  using feedback_for_cases[OF assms(1)] assms(2)
  by (auto simp: querySelector_def first_hit_appendChild_other)

lemma token_settle:
  "querySelector (\<lambda>a. el_name a = lit ''csrf_token'') (document (settle out s)) =
   querySelector (\<lambda>a. el_name a = lit ''csrf_token'') (document s)"
proof (cases out)
  case Fetch_rejected
  then show ?thesis by (simp add: catch_log_def)
next
  case Body_not_json
  then show ?thesis by (simp add: catch_log_def)
next
  case (Json data)
  show ?thesis
  proof (cases "usernameInput s")
    case None
    with Json show ?thesis by simp
  next
    case (Some p)
    show ?thesis
    proof (cases "feedback_for p (lit ''username-feedback'') (document s)")
      case (Inl e)
      with Json Some show ?thesis by (simp add: catch_log_def)
    next
      case (Inr r)
      obtain fb doc1 where r: "r = (fb, doc1)" by (cases r)
      note f = Inr[unfolded r]
      from feedback_for_querySelector[OF f, of "\<lambda>a. el_name a = lit ''csrf_token''"]
      have "querySelector (\<lambda>a. el_name a = lit ''csrf_token'') doc1 =
            querySelector (\<lambda>a. el_name a = lit ''csrf_token'') (document s)"
        by (simp add: new_div_def lit_def)
      with Json Some f show ?thesis
        by (cases "get_available data") (simp_all add: catch_log_def querySelector_modify)
    qed
  qed
qed

lemma token_email_onblur:
  "querySelector (\<lambda>a. el_name a = lit ''csrf_token'') (document (email_onblur p s)) =
   querySelector (\<lambda>a. el_name a = lit ''csrf_token'') (document s)"
proof (cases "feedback_for p (lit ''email-feedback'') (document s)")
  case (Inl e)
  then show ?thesis by (simp add: email_onblur_def)
next
  case (Inr r)
  obtain fb doc1 where r: "r = (fb, doc1)" by (cases r)
  note f = Inr[unfolded r]
  from feedback_for_querySelector[OF f, of "\<lambda>a. el_name a = lit ''csrf_token''"]
  have "querySelector (\<lambda>a. el_name a = lit ''csrf_token'') doc1 =
        querySelector (\<lambda>a. el_name a = lit ''csrf_token'') (document s)"
    by (simp add: new_div_def lit_def)
  with f show ?thesis by (simp add: email_onblur_def querySelector_modify)
qed

lemma token_confirm_oninput:
  "querySelector (\<lambda>a. el_name a = lit ''csrf_token'') (document (confirm_oninput p s)) =
   querySelector (\<lambda>a. el_name a = lit ''csrf_token'') (document s)"
proof (cases "passwordInput s")
  case None
  then show ?thesis by (simp add: confirm_oninput_def)
next
  case (Some pw)
  show ?thesis
  proof (cases "feedback_for p (lit ''confirm-password-feedback'') (document s)")
    case (Inl e)
    with Some show ?thesis by (simp add: confirm_oninput_def)
  next
    case (Inr r)
    obtain fb doc1 where r: "r = (fb, doc1)" by (cases r)
    note f = Inr[unfolded r]
    from feedback_for_querySelector[OF f, of "\<lambda>a. el_name a = lit ''csrf_token''"]
    have "querySelector (\<lambda>a. el_name a = lit ''csrf_token'') doc1 =
          querySelector (\<lambda>a. el_name a = lit ''csrf_token'') (document s)"
      by (simp add: new_div_def lit_def)
    with Some f show ?thesis by (simp add: confirm_oninput_def querySelector_modify)
  qed
qed

lemma uncaught_email_onblur:
  "lookup p (document s) = Some a \<Longrightarrow> uncaught (email_onblur p s) = uncaught s"
  using feedback_for_total[of p "document s" a "lit ''email-feedback''"]
  by (auto simp: email_onblur_def)

lemma uncaught_confirm_oninput:
  "lookup p (document s) = Some a \<Longrightarrow> uncaught (confirm_oninput p s) = uncaught s"
  using feedback_for_total[of p "document s" a "lit ''confirm-password-feedback''"]
  by (auto simp: confirm_oninput_def split: option.splits)

lemma uncaught_fold_timer_callback:
  "querySelector (\<lambda>a. el_name a = lit ''csrf_token'') (document s) \<noteq> None \<Longrightarrow>
   uncaught (fold timer_callback ts s) = uncaught s"
  by (induction ts arbitrary: s) (auto simp: timer_callback_def)

lemma token_step:
  "querySelector (\<lambda>a. el_name a = lit ''csrf_token'') (document (step e s)) =
   querySelector (\<lambda>a. el_name a = lit ''csrf_token'') (document s)"
proof (cases e)
  case (Input t v)
  then show ?thesis
    by (auto simp: step.simps Let_def username_oninput_fields token_confirm_oninput
        querySelector_modify split: option.splits)
next
  case (Blur t)
  then show ?thesis by (simp add: step.simps token_email_onblur)
next
  case (Elapse d)
  then show ?thesis by (simp add: step_Elapse_fields)
next
  case (Settle i out)
  then show ?thesis using token_settle[of out "s\<lparr>settled := i # settled s\<rparr>"]
    by (simp add: step.simps)
qed

lemma uncaught_step:
  assumes "invariant s"
    and "querySelector (\<lambda>a. el_name a = lit ''csrf_token'') (document s) \<noteq> None"
  shows "uncaught (step e s) = uncaught s"
proof (cases e)
  case (Input t v)
  show ?thesis
  proof (cases "lookup t (document s)")
    case None
    with Input show ?thesis by (simp add: step.simps)
  next
    case (Some a)
    define s1 where "s1 = s\<lparr>document := modify t (\<lambda>a. a\<lparr>el_value := v\<rparr>) (document s)\<rparr>"
    define s2 where "s2 = (if usernameInput s1 = Some t then username_oninput t s1 else s1)"
    have l2: "lookup t (document s2) = Some (a\<lparr>el_value := v\<rparr>)"
      using Some by (simp add: s2_def s1_def username_oninput_fields lookup_modify_same)
    have u2: "uncaught s2 = uncaught s"
      by (simp add: s2_def s1_def username_oninput_fields)
    have "step e s = (if passwordInput s2 \<noteq> None \<and> confirmPasswordInput s2 = Some t
              then confirm_oninput t s2 else s2)"
      by (simp only: Input step.simps Some option.case Let_def s1_def s2_def)
    with u2 uncaught_confirm_oninput[OF l2] show ?thesis by simp
  qed
next
  case (Blur t)
  then show ?thesis by (auto simp: step.simps uncaught_email_onblur)
next
  case (Elapse d)
  with assms(2) show ?thesis
    by (simp add: step.simps Let_def uncaught_fold_timer_callback)
next
  case (Settle i out)
  then show ?thesis by (simp add: step.simps settle_fields)
qed

lemma token_present_no_uncaught:
  assumes "querySelector (\<lambda>a. el_name a = lit ''csrf_token'') doc \<noteq> None"
  shows "uncaught (run evs (DOMContentLoaded doc)) = []"
proof -
  have "invariant s \<Longrightarrow> querySelector (\<lambda>a. el_name a = lit ''csrf_token'') (document s) \<noteq> None \<Longrightarrow>
        uncaught (run evs s) = uncaught s" for s
  proof (induction evs arbitrary: s)
    case Nil
    then show ?case by (simp add: run_Nil)
  next
    case (Cons e evs)
    from Cons.prems have "uncaught (step e s) = uncaught s" by (rule uncaught_step)
    moreover have "invariant (step e s)" using Cons.prems(1) by (rule invariant_step)
    moreover have "querySelector (\<lambda>a. el_name a = lit ''csrf_token'') (document (step e s)) \<noteq> None"
      using Cons.prems(2) by (simp add: token_step)
    ultimately show ?case using Cons.IH[of "step e s"] by (simp add: run_Cons)
  qed
  moreover have "document (DOMContentLoaded doc) = doc" "uncaught (DOMContentLoaded doc) = []"
    by (simp_all add: DOMContentLoaded_def)
  ultimately show ?thesis
    using assms invariant_DOMContentLoaded[of doc] by simp
qed


lemma usernameInput_step: "usernameInput (step e s) = usernameInput s"
proof (cases e)
  case (Input t v)
  then show ?thesis
    by (simp add: step.simps Let_def username_oninput_fields confirm_oninput_fields
        split: option.splits)
next
  case (Blur t)
  then show ?thesis by (simp add: step.simps email_onblur_fields)
next
  case (Elapse d)
  then show ?thesis by (simp add: step_Elapse_fields)
next
  case (Settle i out)
  then show ?thesis by (simp add: step.simps settle_fields)
qed

lemma usernameInput_run: "usernameInput (run evs s) = usernameInput s"
  by (induction evs arbitrary: s) (simp_all add: run_Nil run_Cons usernameInput_step)

lemma no_username_no_request:
  assumes "getElementById (lit ''username'') doc = None"
  shows "requests (run evs (DOMContentLoaded doc)) = [] \<and> timers (run evs (DOMContentLoaded doc)) = []"
proof -
  have "usernameInput (run evs (DOMContentLoaded doc)) = None"
    using assms by (simp add: usernameInput_run DOMContentLoaded_def)
  with invariant_reachable[of evs doc] show ?thesis by (simp add: invariant_def)
qed

section \<open>The username watcher\<close>

text \<open>
  Claim C1, as it stands, fails on a page that has the username input and no token
  field: on the login page, "al" and then " alice " 100 ms later make a burst whose final
  trimmed value has five code units, and 500 ms after the last keystroke no request has
  been made; the callback of the timer has thrown on line 19 instead.
\<close>

theorem burst_without_token_counterexample:
  "usernameInput (DOMContentLoaded login_page) = Some [0, 0, 0] \<and>
   (100::nat) < 500 \<and>
   3 \<le> length (trim (lit '' alice '')) \<and>
   requests (run [Input [0, 0, 0] (lit ''al''), Elapse 100, Input [0, 0, 0] (lit '' alice ''),
                  Elapse 500] (DOMContentLoaded login_page)) = [] \<and>
   uncaught (run [Input [0, 0, 0] (lit ''al''), Elapse 100, Input [0, 0, 0] (lit '' alice ''),
                  Elapse 500] (DOMContentLoaded login_page)) = [TypeError]"
  by code_simp

text \<open>
  Claim C1, amended. On a page that has the token field, take any reachable state in
  which the username watcher is attached and any burst of keystrokes on the username
  field, each less than 500 ms after the one before, whose final value has a trimmed
  length of at least 3. Once 500 ms or more have passed after the last keystroke, exactly
  one request has been added; it carries the trimmed value of the last keystroke and the
  value of the token field, and no timer is left.
\<close>

theorem debounce_single_request:
  assumes "s = run pre (DOMContentLoaded doc)"
    and "usernameInput s = Some p"
    and "querySelector (\<lambda>a. el_name a = lit ''csrf_token'') (document s) = Some q"
    and "\<forall>(d, v) \<in> set ks. d < 500"
    and "3 \<le> length (trim (last (v0 # map snd ks)))"
    and "500 \<le> d'"
    and "s' = run (Input p v0 # keystrokes p ks @ [Elapse d']) s"
  shows "requests s' =
           requests s @ [\<lparr>req_csrf = value_at q (document s'),
                           req_username = trim (last (v0 # map snd ks))\<rparr>] \<and>
         timers s' = []"
proof -
  let ?n = "lit ''csrf_token'' :: js_string"
  let ?s0 = "step (Input p v0) s"
  let ?s1 = "run (keystrokes p ks) ?s0"
  have inv: "invariant s" using assms(1) by (simp add: invariant_reachable)
  have w0: "waiting (trim v0) ?s0" using inv assms(2) by (rule waiting_Input)
  have u0: "usernameInput ?s0 = Some p" using inv assms(2) by (rule step_Input_username_effect(4))
  have r0: "requests ?s0 = requests s" using inv assms(2) by (rule step_Input_username_effect(2))
  have q0: "querySelector (\<lambda>a. el_name a = ?n) (document ?s0) = Some q"
    using step_Input_username_effect(5)[OF inv assms(2), of v0] assms(3)
    by (simp add: querySelector_modify)
  from waiting_keystrokes[OF w0 u0 assms(4), of ?n] r0 q0
  have w1: "waiting (trim (last (v0 # map snd ks))) ?s1"
    and r1: "requests ?s1 = requests s"
    and q1: "querySelector (\<lambda>a. el_name a = ?n) (document ?s1) = Some q"
    by simp_all
  have s': "s' = step (Elapse d') ?s1"
    by (simp add: assms(7) run_Cons run_append run_Nil)
  have d: "document s' = document ?s1"
    by (simp add: s' step_Elapse_fields)
  from waiting_fire[OF w1 assms(5,6) q1] r1 d show ?thesis
    by (simp add: s')
qed

theorem debounce_single_request_witness:
  "loaded = run [] (DOMContentLoaded sample_page) \<and>
   usernameInput loaded = Some [0, 1, 0] \<and>
   querySelector (\<lambda>a. el_name a = lit ''csrf_token'') (document loaded) = Some [0, 0, 0] \<and>
   (100::nat) < 500 \<and> (499::nat) < 500 \<and>
   3 \<le> length (trim (lit '' alice '')) \<and> (500::nat) \<le> 500 \<and>
   requests (run [Input [0, 1, 0] (lit ''al''), Elapse 100, Input [0, 1, 0] (lit ''ali''),
                  Elapse 499, Input [0, 1, 0] (lit '' alice ''), Elapse 500] loaded) =
     [\<lparr>req_csrf = lit ''tok'', req_username = lit ''alice''\<rparr>]"
proof -
  let ?ks = "[(100, lit ''ali''), (499, lit '' alice '')] :: (nat \<times> js_string) list"
  let ?s' = "run (Input [0, 1, 0] (lit ''al'') # keystrokes [0, 1, 0] ?ks @ [Elapse 500]) loaded"
  have a: "usernameInput loaded = Some [0, 1, 0]" by code_simp
  have b: "querySelector (\<lambda>a. el_name a = lit ''csrf_token'') (document loaded) = Some [0, 0, 0]"
    by code_simp
  have c: "\<forall>(d, v) \<in> set ?ks. d < 500" by simp
  have t: "trim (lit '' alice '') = lit ''alice''" by code_simp
  have e: "3 \<le> length (trim (last (lit ''al'' # map snd ?ks)))" by (simp add: t) (simp add: lit_def)
  have f: "(500::nat) \<le> 500" by simp
  have g: "requests loaded = []" by code_simp
  have h: "value_at [0, 0, 0] (document ?s') = lit ''tok''" by code_simp
  from debounce_single_request[OF loaded_def a b c e f refl]
  have "requests ?s' = requests loaded @ [\<lparr>req_csrf = value_at [0, 0, 0] (document ?s'),
                           req_username = trim (last (lit ''al'' # map snd ?ks))\<rparr>]"
    by (rule conjunct1)
  then have r: "requests (run [Input [0, 1, 0] (lit ''al''), Elapse 100, Input [0, 1, 0] (lit ''ali''),
                  Elapse 499, Input [0, 1, 0] (lit '' alice ''), Elapse 500] loaded) =
     [\<lparr>req_csrf = lit ''tok'', req_username = lit ''alice''\<rparr>]"
    unfolding g h by (simp add: t)
  have l: "3 \<le> length (trim (lit '' alice ''))" by (simp add: t) (simp add: lit_def)
  show ?thesis
    by (intro conjI) (rule loaded_def a b r l | simp)+
qed

text \<open>
  Claim C2. In every reachable state, an \<^verbatim>\<open>input\<close> event on the username field whose
  trimmed value is shorter than 3 leaves no timer pending and adds no request, and
  whatever happens afterwards, no request ever carries that value.
\<close>

theorem short_username_no_request:
  assumes "s = run evs (DOMContentLoaded doc)"
    and "usernameInput s = Some p"
    and "length (trim v) < 3"
  shows "timers (step (Input p v) s) = [] \<and>
         requests (step (Input p v) s) = requests s \<and>
         (\<forall>r \<in> set (requests (run evs' (step (Input p v) s))). req_username r \<noteq> trim v)"
proof -
  have inv: "invariant s" using assms(1) by (simp add: invariant_reachable)
  then have inv': "invariant (step (Input p v) s)" by (rule invariant_step)
  have "\<forall>r \<in> set (requests (run evs' (step (Input p v) s))). req_username r \<noteq> trim v"
  proof
    fix r assume "r \<in> set (requests (run evs' (step (Input p v) s)))"
    with inv' have "3 \<le> length (req_username r)" by (rule requests_long)
    with assms(3) show "req_username r \<noteq> trim v" by auto
  qed
  with step_Input_username_effect(1,2)[OF inv assms(2), of v] assms(3) show ?thesis
    by simp
qed

theorem short_username_no_request_witness:
  "loaded = run [] (DOMContentLoaded sample_page) \<and>
   usernameInput loaded = Some [0, 1, 0] \<and>
   length (trim (lit '' ab '')) < 3 \<and>
   timers (step (Input [0, 1, 0] (lit '' ab '')) loaded) = [] \<and>
   requests (run [Elapse 500] (step (Input [0, 1, 0] (lit '' ab '')) loaded)) = []"
proof -
  have a: "usernameInput loaded = Some [0, 1, 0]" by code_simp
  have b: "length (trim (lit '' ab '')) < 3" by code_simp
  have c: "requests (run [Elapse 500] (step (Input [0, 1, 0] (lit '' ab '')) loaded)) = []"
    by code_simp
  from short_username_no_request[OF loaded_def a b]
  have d: "timers (step (Input [0, 1, 0] (lit '' ab '')) loaded) = []" by blast
  show ?thesis
    by (intro conjI) (rule loaded_def a b c d)+
qed

text \<open>
  Claim C3, as it stands, fails: with "alice" typed and its timer pending, a keystroke
  100 ms later that leaves "al" cancels the timer, and no request is ever made.
\<close>

theorem pending_timer_cancelled_counterexample:
  "timers (run [Elapse 100] typed_alice) =
     [\<lparr>timer_id = 1, deadline = 500, captured = lit ''alice''\<rparr>] \<and>
   timers (run [Elapse 100, Input [0, 1, 0] (lit ''al'')] typed_alice) = [] \<and>
   requests (run [Elapse 100, Input [0, 1, 0] (lit ''al''), Elapse 400, Elapse 1000] typed_alice) = []"
  by code_simp

text \<open>
  Claim C3, amended. The listener clears the pending timer before it looks at the length
  (line 9 comes before line 12): in every reachable state, a keystroke on the username
  field whose trimmed value is shorter than 3 leaves no timer pending, and however much
  time passes afterwards, no request is added. The timer that was pending never fires.
\<close>

theorem short_input_cancels_pending_timer:
  assumes "s = run evs (DOMContentLoaded doc)"
    and "usernameInput s = Some p"
    and "length (trim v) < 3"
  shows "timers (step (Input p v) s) = [] \<and>
         requests (run (Input p v # map Elapse ds) s) = requests s \<and>
         timers (run (Input p v # map Elapse ds) s) = []"
proof -
  have inv: "invariant s" using assms(1) by (simp add: invariant_reachable)
  from step_Input_username_effect(1,2)[OF inv assms(2), of v] assms(3)
  have t: "timers (step (Input p v) s) = []" and r: "requests (step (Input p v) s) = requests s"
    by simp_all
  from run_Elapse_idle[OF t, of ds] r t show ?thesis
    by (simp add: run_Cons)
qed

theorem short_input_cancels_pending_timer_witness:
  "run [Elapse 100] typed_alice =
     run [Input [0, 1, 0] (lit ''alice''), Elapse 100] (DOMContentLoaded sample_page) \<and>
   usernameInput (run [Elapse 100] typed_alice) = Some [0, 1, 0] \<and>
   length (trim (lit ''al'')) < 3 \<and>
   timers (run [Elapse 100] typed_alice) \<noteq> [] \<and>
   timers (step (Input [0, 1, 0] (lit ''al'')) (run [Elapse 100] typed_alice)) = [] \<and>
   requests (run (Input [0, 1, 0] (lit ''al'') # map Elapse [400, 1000]) (run [Elapse 100] typed_alice)) = []"
proof -
  have a: "run [Elapse 100] typed_alice =
     run [Input [0, 1, 0] (lit ''alice''), Elapse 100] (DOMContentLoaded sample_page)"
    by (simp add: typed_alice_def run_Cons run_Nil)
  have b: "usernameInput (run [Elapse 100] typed_alice) = Some [0, 1, 0]" by code_simp
  have c: "length (trim (lit ''al'')) < 3" by code_simp
  have d: "timers (run [Elapse 100] typed_alice) \<noteq> []" by code_simp
  have e: "requests (run [Elapse 100] typed_alice) = []" by code_simp
  from short_input_cancels_pending_timer[OF a b c, of "[400, 1000]"] e
  have f: "timers (step (Input [0, 1, 0] (lit ''al'')) (run [Elapse 100] typed_alice)) = []"
    and g: "requests (run (Input [0, 1, 0] (lit ''al'') # map Elapse [400, 1000]) (run [Elapse 100] typed_alice)) = []"
    by simp_all
  show ?thesis
    by (intro conjI) (rule a b c d f g)+
qed

text \<open>
  Claim C4. The three watchers are guarded by the existence of their inputs, but the
  token field is not: line 19 reads \<^verbatim>\<open>.value\<close> of what \<^verbatim>\<open>querySelector\<close> returns. On the
  login page, which has the username input and no token field, the username watcher is
  attached, and 500 ms after "alice" was typed the callback of the timer throws a
  \<^verbatim>\<open>TypeError\<close> that nothing catches; no request is made. (With the token field
  present nothing is ever thrown: lemma \<open>token_present_no_uncaught\<close>.)
\<close>

theorem missing_token_throws:
  "usernameInput (DOMContentLoaded login_page) = Some [0, 0, 0] \<and>
   querySelector (\<lambda>a. el_name a = lit ''csrf_token'') login_page = None \<and>
   uncaught (run [Input [0, 0, 0] (lit ''alice''), Elapse 500] (DOMContentLoaded login_page)) =
     [TypeError] \<and>
   requests (run [Input [0, 0, 0] (lit ''alice''), Elapse 500] (DOMContentLoaded login_page)) = []"
  by code_simp

section \<open>How a request settles\<close>

text \<open>
  Claim C5. When a pending request fails in transport (\<^verbatim>\<open>fetch\<close> rejects) or its body
  does not decode (\<^verbatim>\<open>response.json()\<close> rejects), the page changes in nothing but the
  log: one entry is added to the console, the document (so every feedback element) is as
  before, no feedback element comes into being, and no request or timer is added.
\<close>

theorem failure_only_logs:
  assumes "i < length (requests s)" and "i \<notin> set (settled s)"
    and "out = Fetch_rejected \<or> out = Body_not_json"
  shows "step (Settle i out) s =
           s\<lparr>settled := i # settled s,
             console := console s @ [if out = Fetch_rejected then FetchError else SyntaxError]\<rparr> \<and>
         document (step (Settle i out) s) = document s \<and>
         requests (step (Settle i out) s) = requests s \<and>
         timers (step (Settle i out) s) = timers s \<and>
         uncaught (step (Settle i out) s) = uncaught s"
  using assms by (auto simp: step.simps catch_log_def)

theorem failure_only_logs_witness:
  "0 < length (requests one_request) \<and> 0 \<notin> set (settled one_request) \<and>
   document (step (Settle 0 Fetch_rejected) one_request) = document one_request \<and>
   console (step (Settle 0 Fetch_rejected) one_request) = [FetchError] \<and>
   requests (step (Settle 0 Fetch_rejected) one_request) = requests one_request \<and>
   shown (lit ''username-feedback'') (document (step (Settle 0 Fetch_rejected) one_request)) = None"
proof -
  have a: "0 < length (requests one_request)" by code_simp
  have b: "0 \<notin> set (settled one_request)" by code_simp
  have c: "console one_request = []" by code_simp
  have d: "shown (lit ''username-feedback'') (document one_request) = None" by code_simp
  from failure_only_logs[OF a b, of Fetch_rejected] a b c d show ?thesis by simp
qed

text \<open>
  Claim C6. When a pending request settles with a decoded JSON object whose
  \<^verbatim>\<open>available\<close> property is a boolean, the feedback element of the username field shows
  "Username is available" in \<^verbatim>\<open>#198754\<close> for true and "Username is already taken" in
  \<^verbatim>\<open>#dc3545\<close> for false.
\<close>

theorem available_boolean_feedback:
  assumes "s = run evs (DOMContentLoaded doc)"
    and "i < length (requests s)" and "i \<notin> set (settled s)"
    and "map_of kvs (lit ''available'') = Some (JBool b)"
  shows "shown (lit ''username-feedback'') (document (step (Settle i (Json (JObject kvs))) s)) =
           Some (if b then (lit ''Username is available'', lit ''#198754'')
                 else (lit ''Username is already taken'', lit ''#dc3545''))"
proof -
  have inv: "invariant s" using assms(1) by (simp add: invariant_reachable)
  from pending_username[OF inv assms(2)] obtain p a
    where p: "usernameInput s = Some p" "lookup p (document s) = Some a" by blast
  let ?s = "s\<lparr>settled := i # settled s\<rparr>"
  have "usernameInput ?s = Some p" "lookup p (document ?s) = Some a"
    using p by simp_all
  from settle_Json_shown(1)[OF this, of "JObject kvs" "Some (JBool b)"] assms(4)
  show ?thesis
    by (simp add: step_Settle_pending[OF assms(2,3)])
qed

theorem available_boolean_feedback_witness:
  "one_request = run [Input [0, 1, 0] (lit ''alice''), Elapse 500] (DOMContentLoaded sample_page) \<and>
   0 < length (requests one_request) \<and> 0 \<notin> set (settled one_request) \<and>
   map_of [(lit ''available'', JBool False)] (lit ''available'') = Some (JBool False) \<and>
   shown (lit ''username-feedback'')
     (document (step (Settle 0 (Json (JObject [(lit ''available'', JBool False)]))) one_request)) =
     Some (lit ''Username is already taken'', lit ''#dc3545'') \<and>
   map_of [(lit ''available'', JBool True)] (lit ''available'') = Some (JBool True) \<and>
   shown (lit ''username-feedback'')
     (document (step (Settle 0 (Json (JObject [(lit ''available'', JBool True)]))) one_request)) =
     Some (lit ''Username is available'', lit ''#198754'')"
proof -
  have a: "0 < length (requests one_request)" by code_simp
  have b: "0 \<notin> set (settled one_request)" by code_simp
  have c: "map_of [(lit ''available'', JBool False)] (lit ''available'') = Some (JBool False)"
    by simp
  have d: "map_of [(lit ''available'', JBool True)] (lit ''available'') = Some (JBool True)"
    by simp
  have f: "shown (lit ''username-feedback'')
     (document (step (Settle 0 (Json (JObject [(lit ''available'', JBool False)]))) one_request)) =
     Some (lit ''Username is already taken'', lit ''#dc3545'')"
    using available_boolean_feedback[OF one_request_def a b c] by simp
  have t: "shown (lit ''username-feedback'')
     (document (step (Settle 0 (Json (JObject [(lit ''available'', JBool True)]))) one_request)) =
     Some (lit ''Username is available'', lit ''#198754'')"
    using available_boolean_feedback[OF one_request_def a b d] by simp
  show ?thesis
    by (intro conjI) (rule one_request_def a b c d f t)+
qed

text \<open>
  Claim C10, as it stands, fails for the body \<^verbatim>\<open>null\<close>: it decodes, it has no
  \<^verbatim>\<open>available\<close>, and yet the handler throws on \<^verbatim>\<open>data.available\<close> after the feedback
  element was provisioned, so the element stays empty and the error is logged.
\<close>

theorem null_body_counterexample:
  "shown (lit ''username-feedback'') (document (step (Settle 0 (Json JNull)) one_request)) = Some ([], []) \<and>
   shown (lit ''username-feedback'') (document (step (Settle 0 (Json JNull)) one_request)) \<noteq>
     Some (lit ''Username is already taken'', lit ''#dc3545'') \<and>
   console (step (Settle 0 (Json JNull)) one_request) = [TypeError]"
  by code_simp

text \<open>
  Claim C10, amended. The handler tests \<^verbatim>\<open>data.available\<close> for truthiness only. For
  every decoded body other than \<^verbatim>\<open>null\<close> the read succeeds and nothing is logged; the
  feedback shows "Username is already taken" in \<^verbatim>\<open>#dc3545\<close> when the property is absent,
  \<^verbatim>\<open>null\<close>, \<^verbatim>\<open>false\<close>, zero or the empty string, and "Username is available" in
  \<^verbatim>\<open>#198754\<close> when it is \<^verbatim>\<open>true\<close>, a number other than zero, a non-empty string, an
  array or an object.
\<close>

theorem available_truthiness:
  assumes "s = run evs (DOMContentLoaded doc)"
    and "i < length (requests s)" and "i \<notin> set (settled s)"
    and "data \<noteq> JNull"
  shows "\<exists>v. get_available data = Inr v \<and>
           console (step (Settle i (Json data)) s) = console s \<and>
           shown (lit ''username-feedback'') (document (step (Settle i (Json data)) s)) =
             Some (if truthy v then (lit ''Username is available'', lit ''#198754'')
                   else (lit ''Username is already taken'', lit ''#dc3545'')) \<and>
           (truthy v \<longleftrightarrow>
              v = Some (JBool True) \<or> (\<exists>n. v = Some (JNumber n) \<and> n \<noteq> Finite 0) \<or>
              (\<exists>c cs. v = Some (JString (c # cs))) \<or> (\<exists>xs. v = Some (JArray xs)) \<or>
              (\<exists>kvs. v = Some (JObject kvs))) \<and>
           (\<not> truthy v \<longleftrightarrow>
              v = None \<or> v = Some JNull \<or> v = Some (JBool False) \<or>
              v = Some (JNumber (Finite 0)) \<or> v = Some (JString []))"
proof -
  have inv: "invariant s" using assms(1) by (simp add: invariant_reachable)
  from pending_username[OF inv assms(2)] obtain p a
    where p: "usernameInput s = Some p" "lookup p (document s) = Some a" by blast
  from get_available_not_null[OF assms(4)] obtain v where v: "get_available data = Inr v" by blast
  let ?s = "s\<lparr>settled := i # settled s\<rparr>"
  have q: "usernameInput ?s = Some p" "lookup p (document ?s) = Some a"
    using p by simp_all
  have t1: "truthy v \<longleftrightarrow>
              v = Some (JBool True) \<or> (\<exists>n. v = Some (JNumber n) \<and> n \<noteq> Finite 0) \<or>
              (\<exists>c cs. v = Some (JString (c # cs))) \<or> (\<exists>xs. v = Some (JArray xs)) \<or>
              (\<exists>kvs. v = Some (JObject kvs))"
    by (cases v rule: truthy.cases) (auto simp: neq_Nil_conv)
  have t2: "\<not> truthy v \<longleftrightarrow>
              v = None \<or> v = Some JNull \<or> v = Some (JBool False) \<or>
              v = Some (JNumber (Finite 0)) \<or> v = Some (JString [])"
    by (cases v rule: truthy.cases) auto
  have st: "step (Settle i (Json data)) s = settle (Json data) ?s"
    using assms(2,3) by (rule step_Settle_pending)
  have c: "console (step (Settle i (Json data)) s) = console s"
    using settle_Json_shown(2)[OF q v] by (simp add: st)
  have sh: "shown (lit ''username-feedback'') (document (step (Settle i (Json data)) s)) =
             Some (if truthy v then (lit ''Username is available'', lit ''#198754'')
                   else (lit ''Username is already taken'', lit ''#dc3545''))"
    using settle_Json_shown(1)[OF q v] by (simp only: st)
  from v c sh t1 t2 show ?thesis
    by (intro exI[of _ v] conjI)
qed

theorem available_truthiness_witness:
  "one_request = run [Input [0, 1, 0] (lit ''alice''), Elapse 500] (DOMContentLoaded sample_page) \<and>
   0 < length (requests one_request) \<and> 0 \<notin> set (settled one_request) \<and>
   JObject [(lit ''available'', JNumber (Finite 1))] \<noteq> JNull \<and>
   console (step (Settle 0 (Json (JObject [(lit ''available'', JNumber (Finite 1))]))) one_request) = [] \<and>
   shown (lit ''username-feedback'')
     (document (step (Settle 0 (Json (JObject [(lit ''available'', JNumber (Finite 1))]))) one_request)) =
     Some (lit ''Username is available'', lit ''#198754'')"
proof -
  have a: "0 < length (requests one_request)" by code_simp
  have b: "0 \<notin> set (settled one_request)" by code_simp
  have c: "JObject [(lit ''available'', JNumber (Finite 1))] \<noteq> JNull" by simp
  have d: "console one_request = []" by code_simp
  have e: "get_available (JObject [(lit ''available'', JNumber (Finite 1))]) = Inr (Some (JNumber (Finite 1)))"
    by simp
  from available_truthiness[OF one_request_def a b c] obtain v
    where v: "get_available (JObject [(lit ''available'', JNumber (Finite 1))]) = Inr v"
      and l: "console (step (Settle 0 (Json (JObject [(lit ''available'', JNumber (Finite 1))]))) one_request) =
           console one_request"
      and sh: "shown (lit ''username-feedback'')
         (document (step (Settle 0 (Json (JObject [(lit ''available'', JNumber (Finite 1))]))) one_request)) =
             Some (if truthy v then (lit ''Username is available'', lit ''#198754'')
                   else (lit ''Username is already taken'', lit ''#dc3545''))"
    by blast
  from v e have "v = Some (JNumber (Finite 1))" by simp
  with sh have "shown (lit ''username-feedback'')
         (document (step (Settle 0 (Json (JObject [(lit ''available'', JNumber (Finite 1))]))) one_request)) =
             Some (lit ''Username is available'', lit ''#198754'')"
    by simp
  with a b c d l one_request_def show ?thesis by simp
qed

section \<open>Feedback-element provisioning\<close>

lemma count_id_feedback_for:
  assumes "feedback_for inp i doc = Inr (fb, doc1)" "i \<noteq> []"
  shows "count_id i doc1 = max 1 (count_id i doc)"
proof -
  from feedback_for_cases[OF assms(1)] show ?thesis
  proof
    assume h: "getElementById i doc = Some fb \<and> doc1 = doc"
    with assms(2) have "querySelector (\<lambda>a. el_id a = i) doc \<noteq> None"
      by (simp add: getElementById_def)
    then have "count_id i doc \<noteq> 0"
      by (simp add: querySelector_None_iff_count count_id_def)
    with h show ?thesis by simp
  next
    assume h: "getElementById i doc = None \<and>
      (\<exists>cs. children (butlast inp) doc = Some cs \<and> fb = butlast inp @ [length cs] \<and>
         doc1 = appendChild (butlast inp) (Element (new_div\<lparr>el_id := i, className := lit ''form-text''\<rparr>)) doc)"
    with assms(2) have "count_id i doc = 0"
      by (simp add: getElementById_def querySelector_None_iff_count count_id_def)
    with h show ?thesis
      by (auto simp: count_id_def count_appendChild new_div_def)
  qed
qed

lemma sample_username: "lookup [0, 1, 0] sample_page =
   Some (new_div\<lparr>el_id := lit ''username'', el_name := lit ''username''\<rparr>)"
  by (simp add: sample_page_def)

text \<open>
  Claim C7. Provisioning the feedback element of an input that is in the document, under a
  non-empty identifier, always succeeds; afterwards \<^verbatim>\<open>getElementById\<close> finds the
  returned element, and provisioning again returns the same element and leaves the
  document as it is. No duplicate is made: the number of elements with the identifier
  goes from zero to one, and otherwise stays. When the element had to be created, it is
  the new last child of the parent of the input, with the identifier and the class
  \<^verbatim>\<open>form-text\<close>.
\<close>

theorem feedback_for_idempotent:
  assumes "lookup inputElement doc = Some a" and "i \<noteq> []"
  shows "\<exists>feedback doc1.
           feedback_for inputElement i doc = Inr (feedback, doc1) \<and>
           getElementById i doc1 = Some feedback \<and>
           feedback_for inputElement i doc1 = Inr (feedback, doc1) \<and>
           count_id i doc1 = max 1 (count_id i doc) \<and>
           (if getElementById i doc = None
            then \<exists>siblings.
                   children (butlast inputElement) doc = Some siblings \<and>
                   feedback = butlast inputElement @ [length siblings] \<and>
                   children (butlast inputElement) doc1 =
                     Some (siblings @
                       [Element (new_div\<lparr>el_id := i, className := lit ''form-text''\<rparr>)])
            else doc1 = doc)"
proof -
  from feedback_for_total[OF assms(1)] obtain feedback doc1
    where f: "feedback_for inputElement i doc = Inr (feedback, doc1)" by blast
  have found: "getElementById i doc1 = Some feedback"
    using f assms(2) by (rule feedback_for_found)
  then have again: "feedback_for inputElement i doc1 = Inr (feedback, doc1)"
    by (simp add: feedback_for_def)
  have cnt: "count_id i doc1 = max 1 (count_id i doc)"
    using f assms(2) by (rule count_id_feedback_for)
  have shape: "if getElementById i doc = None
            then \<exists>siblings.
                   children (butlast inputElement) doc = Some siblings \<and>
                   feedback = butlast inputElement @ [length siblings] \<and>
                   children (butlast inputElement) doc1 =
                     Some (siblings @
                       [Element (new_div\<lparr>el_id := i, className := lit ''form-text''\<rparr>)])
            else doc1 = doc"
    using feedback_for_cases[OF f] by (auto simp: children_appendChild)
  from f found again cnt shape show ?thesis by blast
qed

theorem feedback_for_idempotent_witness:
  "lookup [0, 1, 0] sample_page =
     Some (new_div\<lparr>el_id := lit ''username'', el_name := lit ''username''\<rparr>) \<and>
   lit ''username-feedback'' \<noteq> [] \<and>
   (\<exists>feedback doc1.
      feedback_for [0, 1, 0] (lit ''username-feedback'') sample_page = Inr (feedback, doc1) \<and>
      getElementById (lit ''username-feedback'') doc1 = Some feedback \<and>
      feedback_for [0, 1, 0] (lit ''username-feedback'') doc1 = Inr (feedback, doc1) \<and>
      count_id (lit ''username-feedback'') doc1 = 1 \<and>
      feedback = [0, 1, 1])"
proof -
  have n: "lit ''username-feedback'' \<noteq> []" by (simp add: lit_def)
  have g: "getElementById (lit ''username-feedback'') sample_page = None"
    by (simp add: getElementById_def querySelector_def sample_page_def new_div_def lit_def)
  have c: "count_id (lit ''username-feedback'') sample_page = 0"
    by (simp add: count_id_def sample_page_def new_div_def lit_def)
  have ch: "children [0, 1] sample_page =
     Some [Element (new_div\<lparr>el_id := lit ''username'', el_name := lit ''username''\<rparr>)]"
    by (simp add: sample_page_def)
  from feedback_for_idempotent[OF sample_username n] g c ch sample_username n
  show ?thesis by auto
qed

section \<open>The email watcher\<close>

text \<open>
  Claim C8. On a blur of the email input the trimmed value is tested against the
  pattern: when it does not match, the feedback element of the field shows "Please enter
  a valid email address" in \<^verbatim>\<open>#dc3545\<close>; when it matches, the text of the feedback
  element is empty. The listener issues no request and sets no timer.
\<close>

theorem email_blur_feedback:
  assumes "s = run evs (DOMContentLoaded doc)" and "emailInput s = Some p"
  shows "(if email_pattern (trim (value_at p (document s)))
          then map_option fst (shown (lit ''email-feedback'') (document (step (Blur p) s))) = Some []
          else shown (lit ''email-feedback'') (document (step (Blur p) s)) =
                 Some (lit ''Please enter a valid email address'', lit ''#dc3545'')) \<and>
         requests (step (Blur p) s) = requests s \<and>
         timers (step (Blur p) s) = timers s"
proof -
  have "invariant s" using assms(1) by (simp add: invariant_reachable)
  with assms(2) have "attached (lit ''email'') (Some p) (document s)"
    by (simp add: invariant_def)
  then obtain a where a: "lookup p (document s) = Some a"
    by (auto simp: attached_def split: option.splits)
  with assms(2) have st: "step (Blur p) s = email_onblur p s"
    by (simp add: step.simps)
  from email_onblur_shown[OF a] show ?thesis
    by (simp add: st emailRegex_test email_onblur_fields)
qed

theorem email_blur_feedback_witness:
  "typed_email = run [Input [0, 2, 0] (lit '' not-an-email '')] (DOMContentLoaded sample_page) \<and>
   emailInput typed_email = Some [0, 2, 0] \<and>
   \<not> email_pattern (lit ''not-an-email'') \<and>
   shown (lit ''email-feedback'') (document (step (Blur [0, 2, 0]) typed_email)) =
     Some (lit ''Please enter a valid email address'', lit ''#dc3545'') \<and>
   typed_address = run [Input [0, 2, 0] (lit ''user@example.com'')] (DOMContentLoaded sample_page) \<and>
   emailInput typed_address = Some [0, 2, 0] \<and>
   email_pattern (lit ''user@example.com'') \<and>
   map_option fst (shown (lit ''email-feedback'') (document (step (Blur [0, 2, 0]) typed_address))) =
     Some []"
proof -
  have a: "emailInput typed_email = Some [0, 2, 0]" by code_simp
  have b: "trim (value_at [0, 2, 0] (document typed_email)) = lit ''not-an-email''"
    by code_simp
  have "\<not> regex_test emailRegex (lit ''not-an-email'')" by code_simp
  then have c: "\<not> email_pattern (lit ''not-an-email'')" by (simp add: emailRegex_test)
  from email_blur_feedback[OF typed_email_def a]
  have "if email_pattern (lit ''not-an-email'')
          then map_option fst (shown (lit ''email-feedback'') (document (step (Blur [0, 2, 0]) typed_email))) = Some []
          else shown (lit ''email-feedback'') (document (step (Blur [0, 2, 0]) typed_email)) =
                 Some (lit ''Please enter a valid email address'', lit ''#dc3545'')"
    unfolding b by (rule conjunct1)
  with c have sh: "shown (lit ''email-feedback'') (document (step (Blur [0, 2, 0]) typed_email)) =
                 Some (lit ''Please enter a valid email address'', lit ''#dc3545'')"
    by simp
  have a': "emailInput typed_address = Some [0, 2, 0]" by code_simp
  have b': "trim (value_at [0, 2, 0] (document typed_address)) = lit ''user@example.com''"
    by code_simp
  have "regex_test emailRegex (lit ''user@example.com'')" by code_simp
  then have c': "email_pattern (lit ''user@example.com'')" by (simp add: emailRegex_test)
  from email_blur_feedback[OF typed_address_def a']
  have "if email_pattern (lit ''user@example.com'')
          then map_option fst (shown (lit ''email-feedback'') (document (step (Blur [0, 2, 0]) typed_address))) = Some []
          else shown (lit ''email-feedback'') (document (step (Blur [0, 2, 0]) typed_address)) =
                 Some (lit ''Please enter a valid email address'', lit ''#dc3545'')"
    unfolding b' by (rule conjunct1)
  with c' have sh': "map_option fst (shown (lit ''email-feedback'')
      (document (step (Blur [0, 2, 0]) typed_address))) = Some []"
    by simp
  show ?thesis
    by (intro conjI) (rule typed_email_def a c sh typed_address_def a' c' sh')+
qed

section \<open>The password-confirmation watcher\<close>

text \<open>
  Claim C9. When the page has both the password and the confirmation input, every
  \<^verbatim>\<open>input\<close> event on the confirmation input compares its new value with the current
  value of the password input as strings: the feedback element of the field shows
  "Passwords match" in \<^verbatim>\<open>#198754\<close> when they are equal and "Passwords do not match" in
  \<^verbatim>\<open>#dc3545\<close> otherwise. When either input is missing, no event changes what that
  feedback element shows.
\<close>

theorem confirm_password_feedback:
  assumes "s = run evs (DOMContentLoaded doc)"
  shows "(passwordInput s = Some pw \<and> confirmPasswordInput s = Some p \<longrightarrow>
            shown (lit ''confirm-password-feedback'') (document (step (Input p v) s)) =
              Some (if v = value_at pw (document s)
                    then (lit ''Passwords match'', lit ''#198754'')
                    else (lit ''Passwords do not match'', lit ''#dc3545''))) \<and>
         (passwordInput s = None \<or> confirmPasswordInput s = None \<longrightarrow>
            shown (lit ''confirm-password-feedback'') (document (step e s)) =
            shown (lit ''confirm-password-feedback'') (document s))"
proof (intro conjI impI)
  assume h: "passwordInput s = Some pw \<and> confirmPasswordInput s = Some p"
  have inv: "invariant s" using assms by (simp add: invariant_reachable)
  with h have "attached (lit ''password'') (Some pw) (document s)"
    and "attached (lit ''confirm_password'') (Some p) (document s)"
    by (simp_all add: invariant_def)
  then obtain a b where a: "lookup p (document s) = Some a" "el_id a = lit ''confirm_password''"
    and b: "lookup pw (document s) = Some b" "el_id b = lit ''password''"
    by (auto simp: attached_def split: option.splits)
  have "lit ''password'' \<noteq> lit ''confirm_password''" by (simp add: lit_def)
  with a b have ne: "pw \<noteq> p" by auto
  define s1 where "s1 = s\<lparr>document := modify p (\<lambda>a. a\<lparr>el_value := v\<rparr>) (document s)\<rparr>"
  define s2 where "s2 = (if usernameInput s1 = Some p then username_oninput p s1 else s1)"
  have st: "step (Input p v) s = confirm_oninput p s2"
    using h a(1) by (simp add: step.simps Let_def s1_def s2_def username_oninput_fields)
  have d2: "document s2 = modify p (\<lambda>a. a\<lparr>el_value := v\<rparr>) (document s)"
    by (simp add: s2_def s1_def username_oninput_fields)
  have p2: "passwordInput s2 = Some pw"
    using h by (simp add: s2_def s1_def username_oninput_fields)
  have la: "lookup p (document s2) = Some (a\<lparr>el_value := v\<rparr>)"
    using a(1) by (simp add: d2 lookup_modify_same)
  have lb: "lookup pw (document s2) = Some b"
    using b(1) ne by (simp add: d2 lookup_modify_other)
  have "value_at pw (document s) = el_value b"
    using b(1) by (simp add: value_at_def)
  with confirm_oninput_shown[OF p2 la lb]
  show "shown (lit ''confirm-password-feedback'') (document (step (Input p v) s)) =
              Some (if v = value_at pw (document s)
                    then (lit ''Passwords match'', lit ''#198754'')
                    else (lit ''Passwords do not match'', lit ''#dc3545''))"
    by (simp add: st)
next
  assume "passwordInput s = None \<or> confirmPasswordInput s = None"
  then show "shown (lit ''confirm-password-feedback'') (document (step e s)) =
            shown (lit ''confirm-password-feedback'') (document s)"
    by (rule step_shown_inactive)
qed

theorem confirm_password_feedback_witness:
  "typed_password = run [Input [0, 3, 0] (lit ''Secret1'')] (DOMContentLoaded sample_page) \<and>
   passwordInput typed_password = Some [0, 3, 0] \<and>
   confirmPasswordInput typed_password = Some [0, 4, 0] \<and>
   shown (lit ''confirm-password-feedback'')
     (document (step (Input [0, 4, 0] (lit ''Secret2'')) typed_password)) =
     Some (lit ''Passwords do not match'', lit ''#dc3545'') \<and>
   login_loaded = run [] (DOMContentLoaded login_page) \<and>
   confirmPasswordInput login_loaded = None \<and>
   shown (lit ''confirm-password-feedback'')
     (document (step (Input [0, 1, 0] (lit ''Secret1'')) login_loaded)) =
   shown (lit ''confirm-password-feedback'') (document login_loaded)"
proof -
  have a: "passwordInput typed_password = Some [0, 3, 0]" by code_simp
  have b: "confirmPasswordInput typed_password = Some [0, 4, 0]" by code_simp
  have c: "value_at [0, 3, 0] (document typed_password) = lit ''Secret1''" by code_simp
  have d: "lit ''Secret2'' \<noteq> lit ''Secret1''" by (simp add: lit_def)
  from confirm_password_feedback[OF typed_password_def, of "[0, 3, 0]" "[0, 4, 0]" "lit ''Secret2''"]
  have "shown (lit ''confirm-password-feedback'')
     (document (step (Input [0, 4, 0] (lit ''Secret2'')) typed_password)) =
     Some (if lit ''Secret2'' = lit ''Secret1''
                    then (lit ''Passwords match'', lit ''#198754'')
                    else (lit ''Passwords do not match'', lit ''#dc3545''))"
    unfolding c using a b by blast
  with d have sh: "shown (lit ''confirm-password-feedback'')
     (document (step (Input [0, 4, 0] (lit ''Secret2'')) typed_password)) =
     Some (lit ''Passwords do not match'', lit ''#dc3545'')"
    by simp
  have e: "confirmPasswordInput login_loaded = None" by code_simp
  from confirm_password_feedback[OF login_loaded_def, of _ _ _ "Input [0, 1, 0] (lit ''Secret1'')"] e
  have sh2: "shown (lit ''confirm-password-feedback'')
     (document (step (Input [0, 1, 0] (lit ''Secret1'')) login_loaded)) =
   shown (lit ''confirm-password-feedback'') (document login_loaded)"
    by blast
  show ?thesis
    by (intro conjI) (rule typed_password_def a b sh login_loaded_def e sh2)+
qed

end
